theory Spec2Isabelle
  imports Main "HOL-Library.Word"
begin

unbundle bit_operations_syntax

section \<open>Display7Seg: a multiplexed seven-segment display driver\<close>

text \<open>
  A shallow embedding of the class template \<^verbatim>\<open>Display7Seg\<close> of
  \<^verbatim>\<open>src/Display7Seg.h\<close>. The template parameters are a record, the
  data members of an object are a record, every member function takes the
  object and returns it updated. The Arduino calls \<^verbatim>\<open>pinMode\<close> and
  \<^verbatim>\<open>digitalWrite\<close> are recorded, in the order in which they are made, in
  a trace that is part of the state. Reading an array outside its bounds and
  dividing by zero are values of an error type.

  A byte is an 8-bit word. A value of type \<^verbatim>\<open>unsigned\<close> (an index, a digit
  number, the radix) or of the unsigned type \<^verbatim>\<open>T\<close> of \<^verbatim>\<open>setValue\<close> is a
  natural number: no operation of the class takes one out of the range of its
  type. Where the class stores one in a byte, the conversion is written out
  (\<open>of_nat\<close>).
\<close>

subsection \<open>Data\<close>

type_synonym byte = "8 word"

text \<open>The template parameters of the class.\<close>

record config =
  numdigits :: nat
  havedp :: bool
  digiton :: bool
  segmenton :: bool

text \<open>\<^verbatim>\<open>_countof(_segmentpins)\<close>, the array being declared with
  \<^verbatim>\<open>havedp ? 8 : 7\<close> elements.\<close>

definition numsegments :: "config \<Rightarrow> nat" where
  "numsegments cfg = (if havedp cfg then 8 else 7)"

text \<open>One call of the Arduino core; \<^verbatim>\<open>pinMode\<close> is only ever called with
  \<^verbatim>\<open>OUTPUT\<close>.\<close>

datatype io_event = PinMode byte | DigitalWrite byte bool

text \<open>
  The object. The fields \<open>digitpins\<close>, \<open>segmentpins\<close>, \<open>display\<close> and
  \<open>curdigit\<close> are the members \<^verbatim>\<open>_digitpins\<close>, \<^verbatim>\<open>_segmentpins\<close>,
  \<^verbatim>\<open>_display\<close> and \<^verbatim>\<open>_curdigit\<close>; \<open>dummy\<close> is the static scratch
  variable of \<^verbatim>\<open>operator[]\<close>; \<open>io\<close> is the trace of the calls made to the
  Arduino core so far, oldest first.
\<close>

record display7seg =
  digitpins :: "byte list"
  segmentpins :: "byte list"
  display :: "byte list"
  curdigit :: byte
  dummy :: byte
  io :: "io_event list"

text \<open>The arrays of an object have the sizes that their declarations give.\<close>

definition well_sized :: "config \<Rightarrow> display7seg \<Rightarrow> bool" where
  "well_sized cfg s \<longleftrightarrow>
     length (digitpins s) = numdigits cfg \<and>
     length (segmentpins s) = numsegments cfg \<and>
     length (display s) = numdigits cfg"

datatype error = OutOfBounds | DivisionByZero

text \<open>Reading element \<open>i\<close> of a C array: outside the array the behaviour is
  undefined, which is the error \<open>OutOfBounds\<close> here.\<close>

definition array_read :: "'a list \<Rightarrow> nat \<Rightarrow> error + 'a" where
  "array_read xs i = (if i < length xs then Inr (xs ! i) else Inl OutOfBounds)"

subsection \<open>The Arduino core\<close>

definition pinMode :: "byte \<Rightarrow> display7seg \<Rightarrow> display7seg" where
  "pinMode p s = s\<lparr>io := io s @ [PinMode p]\<rparr>"

definition digitalWrite :: "byte \<Rightarrow> bool \<Rightarrow> display7seg \<Rightarrow> display7seg" where
  "digitalWrite p v s = s\<lparr>io := io s @ [DigitalWrite p v]\<rparr>"

subsection \<open>Constructor\<close>

text \<open>The loop of the constructor, from index \<open>i\<close> on.\<close>

function clear_loop :: "config \<Rightarrow> nat \<Rightarrow> display7seg \<Rightarrow> display7seg" where
  "clear_loop cfg i s =
     (if i < numdigits cfg
      then clear_loop cfg (Suc i) (s\<lparr>display := (display s)[i := 0]\<rparr>)
      else s)"
  by pat_completeness auto
termination
  by (relation "measure (\<lambda>(cfg, i, s). numdigits cfg - i)") auto

text \<open>
  The constructor runs on the storage of the object, whatever it holds, and
  assigns the elements of \<^verbatim>\<open>_display\<close> only: no other member has an
  initialiser.
\<close>

definition Display7Seg :: "config \<Rightarrow> display7seg \<Rightarrow> display7seg" where
  "Display7Seg cfg storage = clear_loop cfg 0 storage"

text \<open>The storage of an object of static storage duration, such as the global
  \<^verbatim>\<open>display\<close> of the Timer example: zero-initialised before the constructor
  runs.\<close>

definition static_storage :: "config \<Rightarrow> display7seg" where
  "static_storage cfg =
     \<lparr>digitpins = replicate (numdigits cfg) 0,
      segmentpins = replicate (numsegments cfg) 0,
      display = replicate (numdigits cfg) 0,
      curdigit = 0, dummy = 0, io = []\<rparr>"

subsection \<open>showDigit and show\<close>

text \<open>The loop over the segment pins in \<^verbatim>\<open>showDigit\<close>, from index \<open>i\<close> on,
  with the remaining bits \<open>b\<close>.\<close>

function segment_loop :: "config \<Rightarrow> nat \<Rightarrow> byte \<Rightarrow> display7seg \<Rightarrow> display7seg" where
  "segment_loop cfg i b s =
     (if i < numsegments cfg
      then segment_loop cfg (Suc i) (drop_bit 1 b)
             (digitalWrite (segmentpins s ! i)
                (if b AND 1 \<noteq> 0 then segmenton cfg else \<not> segmenton cfg) s)
      else s)"
  by pat_completeness auto
termination
  by (relation "measure (\<lambda>(cfg, i, b, s). numsegments cfg - i)") auto

text \<open>\<^verbatim>\<open>showDigit\<close>. The assignment to \<^verbatim>\<open>_curdigit\<close> converts an
  \<^verbatim>\<open>unsigned\<close> to a byte.\<close>

definition showDigit :: "config \<Rightarrow> nat \<Rightarrow> display7seg \<Rightarrow> display7seg" where
  "showDigit cfg newdigit s =
     (let s1 =
        (if unat (curdigit s) < numdigits cfg
         then
           let s' = (if newdigit \<noteq> unat (curdigit s)
                     then digitalWrite (digitpins s ! unat (curdigit s)) (\<not> digiton cfg) s
                     else s);
               b = (if newdigit < numdigits cfg then display s' ! newdigit else 0)
           in segment_loop cfg 0 b s'
         else s);
          s2 =
        (if newdigit < numdigits cfg
         then digitalWrite (digitpins s1 ! newdigit) (digiton cfg) s1
         else s1)
      in s2\<lparr>curdigit := of_nat newdigit\<rparr>)"

text \<open>\<^verbatim>\<open>show\<close>.\<close>

definition show_next :: "config \<Rightarrow> display7seg \<Rightarrow> display7seg" where
  "show_next cfg s =
     (if unat (curdigit s) < numdigits cfg
      then
        let nextdigit = unat (curdigit s) + 1;
            nextdigit = (if nextdigit \<ge> numdigits cfg then 0 else nextdigit)
        in showDigit cfg nextdigit s
      else s)"

subsection \<open>Blanking\<close>

definition setBlank :: "config \<Rightarrow> bool \<Rightarrow> display7seg \<Rightarrow> display7seg" where
  "setBlank cfg onoff s = showDigit cfg (if onoff then numdigits cfg else 0) s"

definition isBlank :: "config \<Rightarrow> display7seg \<Rightarrow> bool" where
  "isBlank cfg s \<longleftrightarrow> unat (curdigit s) \<ge> numdigits cfg"

subsection \<open>begin\<close>

text \<open>The two loops of \<^verbatim>\<open>begin\<close>, from index \<open>i\<close> on. The arrays of the
  caller are read at every index below the size of the member array.\<close>

function digitpins_loop ::
  "config \<Rightarrow> byte list \<Rightarrow> nat \<Rightarrow> display7seg \<Rightarrow> error + display7seg" where
  "digitpins_loop cfg dpins i s =
     (if i < numdigits cfg
      then (case array_read dpins i of
              Inl e \<Rightarrow> Inl e
            | Inr p \<Rightarrow>
                digitpins_loop cfg dpins (Suc i)
                  (digitalWrite p (\<not> digiton cfg)
                     (pinMode p (s\<lparr>digitpins := (digitpins s)[i := p]\<rparr>))))
      else Inr s)"
  by pat_completeness auto
termination
  by (relation "measure (\<lambda>(cfg, dpins, i, s). numdigits cfg - i)") auto

function segmentpins_loop ::
  "config \<Rightarrow> byte list \<Rightarrow> nat \<Rightarrow> display7seg \<Rightarrow> error + display7seg" where
  "segmentpins_loop cfg spins i s =
     (if i < numsegments cfg
      then (case array_read spins i of
              Inl e \<Rightarrow> Inl e
            | Inr p \<Rightarrow>
                segmentpins_loop cfg spins (Suc i)
                  (digitalWrite p (\<not> segmenton cfg)
                     (pinMode p (s\<lparr>segmentpins := (segmentpins s)[i := p]\<rparr>))))
      else Inr s)"
  by pat_completeness auto
termination
  by (relation "measure (\<lambda>(cfg, spins, i, s). numsegments cfg - i)") auto

definition begin_display ::
  "config \<Rightarrow> byte list \<Rightarrow> byte list \<Rightarrow> bool \<Rightarrow> display7seg \<Rightarrow> error + display7seg" where
  "begin_display cfg dpins spins blank s =
     (case digitpins_loop cfg dpins 0 s of
        Inl e \<Rightarrow> Inl e
      | Inr s1 \<Rightarrow>
          (case segmentpins_loop cfg spins 0 s1 of
             Inl e \<Rightarrow> Inl e
           | Inr s2 \<Rightarrow> Inr (setBlank cfg blank s2)))"

subsection \<open>operator[]\<close>

text \<open>The reference that \<^verbatim>\<open>operator[]\<close> returns: an element of
  \<^verbatim>\<open>_display\<close> or the scratch variable, a static variable of the function
  that is kept with the object here.\<close>

datatype byte_ref = DisplayRef nat | DummyRef

definition subscript :: "config \<Rightarrow> nat \<Rightarrow> byte_ref" where
  "subscript cfg index = (if index < numdigits cfg then DisplayRef index else DummyRef)"

fun ref_read :: "display7seg \<Rightarrow> byte_ref \<Rightarrow> byte" where
  "ref_read s (DisplayRef i) = display s ! i"
| "ref_read s DummyRef = dummy s"

fun ref_write :: "byte_ref \<Rightarrow> byte \<Rightarrow> display7seg \<Rightarrow> display7seg" where
  "ref_write (DisplayRef i) v s = s\<lparr>display := (display s)[i := v]\<rparr>"
| "ref_write DummyRef v s = s\<lparr>dummy := v\<rparr>"

subsection \<open>setSegments, setNumber, setValue\<close>

definition setSegments :: "config \<Rightarrow> nat \<Rightarrow> byte \<Rightarrow> bool \<Rightarrow> display7seg \<Rightarrow> display7seg" where
  "setSegments cfg index bitmap sh s =
     (if index < numdigits cfg
      then
        let s' = s\<lparr>display := (display s)[index := bitmap]\<rparr>
        in if sh then showDigit cfg index s' else s'
      else s)"

text \<open>The table of \<^verbatim>\<open>setNumber\<close>, declared with 16 elements.\<close>

definition table :: "byte list" where
  "table =
     [0x3F, 0x06, 0x5B, 0x4F, 0x66, 0x6D, 0x7D, 0x07, 0x7F, 0x6F,
      0x77, 0x7C, 0x39, 0x5E, 0x79, 0x71]"

definition setNumber ::
  "config \<Rightarrow> nat \<Rightarrow> byte \<Rightarrow> bool \<Rightarrow> bool \<Rightarrow> display7seg \<Rightarrow> error + display7seg" where
  "setNumber cfg index num dp sh s =
     (if index < numdigits cfg \<and> num \<le> 16
      then (case array_read table (unat num) of
              Inl e \<Rightarrow> Inl e
            | Inr g \<Rightarrow> Inr (setSegments cfg index (g OR (if dp then 0x80 else 0)) sh s))
      else Inr s)"

text \<open>
  The loop of \<^verbatim>\<open>setValue\<close>, \<^verbatim>\<open>for (unsigned i = _countof(_display); i-- > 0;)\<close>:
  the first argument counts the positions still to do, and the body runs at
  the position below it. \<open>value\<close> is of an unsigned type \<^verbatim>\<open>T\<close>, on which
  \<^verbatim>\<open>%\<close> and \<^verbatim>\<open>/\<close> are those of the natural numbers; \<^verbatim>\<open>v\<close> is
  a byte.
\<close>

fun setValue_loop ::
  "config \<Rightarrow> nat \<Rightarrow> bool \<Rightarrow> nat \<Rightarrow> nat \<Rightarrow> nat \<Rightarrow> display7seg \<Rightarrow> error + nat \<times> display7seg" where
  "setValue_loop cfg radix leadingzero dppos 0 val s = Inr (val, s)"
| "setValue_loop cfg radix leadingzero dppos (Suc i) val s =
     (if radix = 0 then Inl DivisionByZero
      else
        let v = (of_nat (val mod radix) :: byte)
        in case (if v \<noteq> 0 \<or> val \<noteq> 0 \<or> leadingzero \<or> i \<ge> dppos \<or> i = numdigits cfg - 1
                 then setNumber cfg i v (dppos = i) False s
                 else Inr (setSegments cfg i (if dppos = i then 0x80 else 0) False s)) of
             Inl e \<Rightarrow> Inl e
           | Inr s' \<Rightarrow> setValue_loop cfg radix leadingzero dppos i (val div radix) s')"

definition setValue ::
  "config \<Rightarrow> nat \<Rightarrow> nat \<Rightarrow> bool \<Rightarrow> nat \<Rightarrow> display7seg \<Rightarrow> error + bool \<times> display7seg" where
  "setValue cfg radix val leadingzero dppos s =
     (case setValue_loop cfg radix leadingzero dppos (numdigits cfg) val s of
        Inl e \<Rightarrow> Inl e
      | Inr (val', s') \<Rightarrow> Inr (val' = 0, s'))"

subsection \<open>The Timer example\<close>

text \<open>The instance of \<^verbatim>\<open>src/examples/Timer/Timer.ino\<close>:
  \<^verbatim>\<open>Display7Seg<4, true>\<close>, an object of static storage duration.\<close>

definition timer_config :: config where
  "timer_config = \<lparr>numdigits = 4, havedp = True, digiton = True, segmenton = True\<rparr>"

definition timer_display :: display7seg where
  "timer_display = Display7Seg timer_config (static_storage timer_config)"

subsection \<open>The lines\<close>

text \<open>
  The level of a line is the last level written to its pin, and \<open>None\<close> for a
  pin that was never written. \<open>levels tr\<close> are the levels after the calls
  \<open>tr\<close>.
\<close>

fun drive :: "io_event \<Rightarrow> (byte \<Rightarrow> bool option) \<Rightarrow> (byte \<Rightarrow> bool option)" where
  "drive (PinMode p) lv = lv"
| "drive (DigitalWrite p v) lv = lv(p := Some v)"

definition levels :: "io_event list \<Rightarrow> byte \<Rightarrow> bool option" where
  "levels tr = fold drive tr (\<lambda>p. None)"

text \<open>The digit-select lines, among the pins \<open>dpins\<close>, that are driven to their
  active level.\<close>

definition active_digit_lines :: "config \<Rightarrow> byte list \<Rightarrow> (byte \<Rightarrow> bool option) \<Rightarrow> byte list" where
  "active_digit_lines cfg dpins lv = filter (\<lambda>p. lv p = Some (digiton cfg)) dpins"

text \<open>After none of the calls of \<open>tr\<close>, and not before the first, are two
  digit-select lines active.\<close>

definition never_two_active :: "config \<Rightarrow> byte list \<Rightarrow> io_event list \<Rightarrow> bool" where
  "never_two_active cfg dpins tr \<longleftrightarrow>
     list_all (\<lambda>k. length (active_digit_lines cfg dpins (levels (take k tr))) \<le> 1)
       [0..<Suc (length tr)]"

text \<open>The segment writes of \<^verbatim>\<open>showDigit\<close> for the pattern \<open>b\<close>: segment
  line \<open>j\<close> is driven active when bit \<open>j\<close> of \<open>b\<close> is set, and inactive
  otherwise, from segment a on.\<close>

definition segment_writes :: "config \<Rightarrow> byte list \<Rightarrow> byte \<Rightarrow> io_event list" where
  "segment_writes cfg spins b =
     map (\<lambda>j. DigitalWrite (spins ! j) (if bit b j then segmenton cfg else \<not> segmenton cfg))
       [0..<numsegments cfg]"

subsection \<open>Callers\<close>

text \<open>The public operations, as calls with their arguments; \<open>Assign i v\<close> is
  an assignment through \<^verbatim>\<open>operator[]\<close>, \<^verbatim>\<open>display[i] = v\<close>.\<close>

datatype call =
    Begin "byte list" "byte list" bool
  | Show
  | SetBlank bool
  | SetSegments nat byte bool
  | SetNumber nat byte bool bool
  | SetValue nat nat bool nat
  | Assign nat byte

fun exec :: "config \<Rightarrow> call \<Rightarrow> display7seg \<Rightarrow> error + display7seg" where
  "exec cfg (Begin dpins spins blank) s = begin_display cfg dpins spins blank s"
| "exec cfg Show s = Inr (show_next cfg s)"
| "exec cfg (SetBlank onoff) s = Inr (setBlank cfg onoff s)"
| "exec cfg (SetSegments index bitmap sh) s = Inr (setSegments cfg index bitmap sh s)"
| "exec cfg (SetNumber index num dp sh) s = setNumber cfg index num dp sh s"
| "exec cfg (SetValue radix val leadingzero dppos) s =
     (case setValue cfg radix val leadingzero dppos s of
        Inl e \<Rightarrow> Inl e
      | Inr (ok, s') \<Rightarrow> Inr s')"
| "exec cfg (Assign index v) s = Inr (ref_write (subscript cfg index) v s)"

fun run :: "config \<Rightarrow> call list \<Rightarrow> display7seg \<Rightarrow> error + display7seg" where
  "run cfg [] s = Inr s"
| "run cfg (c # cs) s =
     (case exec cfg c s of Inl e \<Rightarrow> Inl e | Inr s' \<Rightarrow> run cfg cs s')"

fun is_begin :: "call \<Rightarrow> bool" where
  "is_begin (Begin dpins spins blank) = True"
| "is_begin c = False"

text \<open>A reference designates storage: the scratch variable, or an element
  inside \<^verbatim>\<open>_display\<close>.\<close>

fun valid_ref :: "config \<Rightarrow> byte_ref \<Rightarrow> bool" where
  "valid_ref cfg (DisplayRef i) \<longleftrightarrow> i < numdigits cfg"
| "valid_ref cfg DummyRef \<longleftrightarrow> True"

subsection \<open>The digits of a value\<close>

text \<open>
  The digit of \<open>val\<close> that belongs at position \<open>i\<close> of \<open>n\<close> positions, the
  leftmost position being 0, and the part of \<open>val\<close> above that digit.
\<close>

definition digit_at :: "nat \<Rightarrow> nat \<Rightarrow> nat \<Rightarrow> nat \<Rightarrow> nat" where
  "digit_at radix n val i = (val div radix ^ (n - 1 - i)) mod radix"

definition remaining_value :: "nat \<Rightarrow> nat \<Rightarrow> nat \<Rightarrow> nat \<Rightarrow> nat" where
  "remaining_value radix n val i = val div radix ^ (n - i)"

definition glyph :: "nat \<Rightarrow> byte" where
  "glyph d = table ! d"

definition decimal_point :: "nat \<Rightarrow> nat \<Rightarrow> byte" where
  "decimal_point dppos i = (if i = dppos then 0x80 else 0)"

text \<open>What position \<open>i\<close> is to hold after \<^verbatim>\<open>setValue\<close>: nothing but the
  decimal point where a leading zero is suppressed, the glyph of the digit
  elsewhere.\<close>

definition suppressed :: "config \<Rightarrow> nat \<Rightarrow> nat \<Rightarrow> bool \<Rightarrow> nat \<Rightarrow> nat \<Rightarrow> bool" where
  "suppressed cfg radix val leadingzero dppos i \<longleftrightarrow>
     digit_at radix (numdigits cfg) val i = 0 \<and>
     remaining_value radix (numdigits cfg) val i = 0 \<and>
     \<not> leadingzero \<and> i < dppos \<and> i \<noteq> numdigits cfg - 1"

definition expected_entry :: "config \<Rightarrow> nat \<Rightarrow> nat \<Rightarrow> bool \<Rightarrow> nat \<Rightarrow> nat \<Rightarrow> byte" where
  "expected_entry cfg radix val leadingzero dppos i =
     (if suppressed cfg radix val leadingzero dppos i
      then decimal_point dppos i
      else glyph (digit_at radix (numdigits cfg) val i) OR decimal_point dppos i)"

text \<open>What the body of the loop of \<^verbatim>\<open>setValue\<close> stores at position \<open>i\<close>
  when the value still to be shown is \<open>r\<close>, for a radix of at most 16.\<close>

definition loop_entry :: "config \<Rightarrow> nat \<Rightarrow> bool \<Rightarrow> nat \<Rightarrow> nat \<Rightarrow> nat \<Rightarrow> byte" where
  "loop_entry cfg radix leadingzero dppos i r =
     (if r = 0 \<and> \<not> leadingzero \<and> i < dppos \<and> i \<noteq> numdigits cfg - 1
      then decimal_point dppos i
      else glyph (r mod radix) OR decimal_point dppos i)"

subsection \<open>The invariant of the lines\<close>

text \<open>A call of the Arduino core that drives no digit-select line, among the
  pins \<open>dpins\<close>, to its active level.\<close>

fun quiet :: "config \<Rightarrow> byte list \<Rightarrow> io_event \<Rightarrow> bool" where
  "quiet cfg dpins (PinMode p) \<longleftrightarrow> True"
| "quiet cfg dpins (DigitalWrite p v) \<longleftrightarrow> p \<notin> set dpins \<or> v \<noteq> digiton cfg"

text \<open>
  The state of a display bound to the digit pins \<open>dpins\<close> and the segment pins
  \<open>spins\<close>: never so far were two digit-select lines active, and the only
  line that can be active now is the one of the digit under the cursor.
\<close>

definition line_inv :: "config \<Rightarrow> byte list \<Rightarrow> byte list \<Rightarrow> display7seg \<Rightarrow> bool" where
  "line_inv cfg dpins spins s \<longleftrightarrow>
     digitpins s = dpins \<and> segmentpins s = spins \<and>
     never_two_active cfg dpins (io s) \<and>
     set (active_digit_lines cfg dpins (levels (io s)))
       \<subseteq> (if unat (curdigit s) < numdigits cfg then {dpins ! unat (curdigit s)} else {})"

section \<open>Properties\<close>

subsection \<open>The loops and the frame of each operation\<close>

declare segment_loop.simps [simp del] clear_loop.simps [simp del]
  digitpins_loop.simps [simp del] segmentpins_loop.simps [simp del]

lemma bit0_and1: "(b AND 1 \<noteq> 0) = bit (b::byte) 0"
  by (simp add: and_one_eq mod_2_eq_odd bit_0)

lemma segment_loop_eq:
  "segment_loop cfg i b s =
     s\<lparr>io := io s @ map (\<lambda>j. DigitalWrite (segmentpins s ! j)
                  (if bit b (j - i) then segmenton cfg else \<not> segmenton cfg))
                [i..<numsegments cfg]\<rparr>"
proof (induction cfg i b s rule: segment_loop.induct)
  case (1 cfg i b s)
  show ?case
  proof (cases "i < numsegments cfg")
    case False
    then show ?thesis by (simp add: segment_loop.simps [of cfg i b s])
  next
    case True
    have bits: "bit (drop_bit 1 b) (j - Suc i) = bit b (j - i)" if "Suc i \<le> j" for j
    proof -
      have "j - i = Suc (j - Suc i)" using that by simp
      then show ?thesis by (simp add: bit_drop_bit_eq)
    qed
    have tail: "map (\<lambda>j. DigitalWrite (segmentpins s ! j)
                  (if bit (drop_bit (Suc 0) b) (j - Suc i) then segmenton cfg else \<not> segmenton cfg))
                [Suc i..<numsegments cfg] =
          map (\<lambda>j. DigitalWrite (segmentpins s ! j)
                  (if bit b (j - i) then segmenton cfg else \<not> segmenton cfg))
                [Suc i..<numsegments cfg]"
      by (rule map_cong) (use bits in auto)
    have split: "[i..<numsegments cfg] = i # [Suc i..<numsegments cfg]"
      using True by (simp add: upt_conv_Cons)
    show ?thesis
      using True "1.IH" [OF True]
      by (simp add: segment_loop.simps [of cfg i b s] digitalWrite_def split tail bit0_and1)
  qed
qed


lemma segment_loop_from_0:
  "segment_loop cfg 0 b s = s\<lparr>io := io s @ segment_writes cfg (segmentpins s) b\<rparr>"
  by (simp add: segment_loop_eq segment_writes_def)

lemma showDigit_digitpins [simp]: "digitpins (showDigit cfg m s) = digitpins s"
  by (simp add: showDigit_def Let_def segment_loop_from_0 digitalWrite_def)

lemma showDigit_segmentpins [simp]: "segmentpins (showDigit cfg m s) = segmentpins s"
  by (simp add: showDigit_def Let_def segment_loop_from_0 digitalWrite_def)

lemma showDigit_display [simp]: "display (showDigit cfg m s) = display s"
  by (simp add: showDigit_def Let_def segment_loop_from_0 digitalWrite_def)

lemma showDigit_dummy [simp]: "dummy (showDigit cfg m s) = dummy s"
  by (simp add: showDigit_def Let_def segment_loop_from_0 digitalWrite_def)

lemma showDigit_curdigit [simp]: "curdigit (showDigit cfg m s) = of_nat m"
  by (simp add: showDigit_def Let_def)

lemma showDigit_io:
  "io (showDigit cfg m s) =
     io s
     @ (if unat (curdigit s) < numdigits cfg
        then (if m \<noteq> unat (curdigit s)
              then [DigitalWrite (digitpins s ! unat (curdigit s)) (\<not> digiton cfg)] else [])
             @ segment_writes cfg (segmentpins s)
                 (if m < numdigits cfg then display s ! m else 0)
        else [])
     @ (if m < numdigits cfg then [DigitalWrite (digitpins s ! m) (digiton cfg)] else [])"
  by (simp add: showDigit_def Let_def segment_loop_from_0 digitalWrite_def)

lemma unat_of_nat_byte: "m < 256 \<Longrightarrow> unat (of_nat m :: byte) = m"
  by (simp add: unat_of_nat)

lemma unat_of_nat_byte_le: "unat (of_nat m :: byte) \<le> m"
  by (simp add: unat_of_nat)

lemma setSegments_display:
  "display (setSegments cfg i b sh s) =
     (if i < numdigits cfg then (display s)[i := b] else display s)"
  by (simp add: setSegments_def Let_def)

lemma setSegments_no_show:
  "setSegments cfg i b False s =
     (if i < numdigits cfg then s\<lparr>display := (display s)[i := b]\<rparr> else s)"
  by (simp add: setSegments_def Let_def)

lemma clear_loop_eq:
  "i \<le> numdigits cfg \<Longrightarrow> length (display s) = numdigits cfg \<Longrightarrow>
   clear_loop cfg i s =
     s\<lparr>display := take i (display s) @ replicate (numdigits cfg - i) 0\<rparr>"
proof (induction cfg i s rule: clear_loop.induct)
  case (1 cfg i s)
  show ?case
  proof (cases "i < numdigits cfg")
    case False
    with "1.prems" show ?thesis by (subst clear_loop.simps) simp
  next
    case True
    let ?s = "s\<lparr>display := (display s)[i := 0]\<rparr>"
    have "clear_loop cfg i s = clear_loop cfg (Suc i) ?s"
      using True by (simp add: clear_loop.simps [of cfg i s])
    also have "\<dots> = ?s\<lparr>display := take (Suc i) (display ?s) @ replicate (numdigits cfg - Suc i) 0\<rparr>"
      using True "1.prems" by (intro "1.IH") simp_all
    also have "take (Suc i) (display ?s) @ replicate (numdigits cfg - Suc i) 0
                 = take i (display s) @ replicate (numdigits cfg - i) 0"
    proof -
      have "take (Suc i) ((display s)[i := 0]) = take i (display s) @ [0]"
        using True "1.prems" by (simp add: take_Suc_conv_app_nth)
      moreover have "replicate (numdigits cfg - i) (0::byte) = 0 # replicate (numdigits cfg - Suc i) 0"
        using True by (simp add: Suc_diff_Suc flip: replicate_Suc)
      ultimately show ?thesis by simp
    qed
    finally show ?thesis by simp
  qed
qed

lemma Display7Seg_eq:
  "length (display storage) = numdigits cfg \<Longrightarrow>
   Display7Seg cfg storage = storage\<lparr>display := replicate (numdigits cfg) 0\<rparr>"
  by (simp add: Display7Seg_def clear_loop_eq)

lemma timer_display_eq: "timer_display = static_storage timer_config"
  unfolding timer_display_def by (subst Display7Seg_eq) (simp_all add: static_storage_def)

lemma setSegments_no_show_ex: "\<exists>d. setSegments cfg i b False s = s\<lparr>display := d\<rparr>"
  by (cases "i < numdigits cfg") (auto simp: setSegments_no_show intro: exI [of _ "display s"])

lemma setNumber_no_show:
  "setNumber cfg i num dp False s = Inr s' \<Longrightarrow> \<exists>d. s' = s\<lparr>display := d\<rparr>"
  using setSegments_no_show_ex [of cfg i _ s]
  by (auto simp: setNumber_def array_read_def split: if_splits intro: exI [of _ "display s"])

lemma setValue_loop_frame:
  "setValue_loop cfg radix lz dppos k v s = Inr (v', s') \<Longrightarrow> \<exists>d. s' = s\<lparr>display := d\<rparr>"
proof (induction k arbitrary: v s)
  case 0
  then show ?case by (auto intro: exI [of _ "display s"])
next
  case (Suc k)
  from Suc.prems obtain s1 where
    s1: "(\<exists>num dp. setNumber cfg k num dp False s = Inr s1) \<or>
         (\<exists>b. s1 = setSegments cfg k b False s)"
    and rest: "setValue_loop cfg radix lz dppos k (v div radix) s1 = Inr (v', s')"
    by (auto simp: Let_def split: if_splits sum.splits)
  from s1 obtain d1 where "s1 = s\<lparr>display := d1\<rparr>"
    using setSegments_no_show_ex [of cfg k _ s] by (auto dest: setNumber_no_show)
  moreover from Suc.IH [OF rest] obtain d2 where "s' = s1\<lparr>display := d2\<rparr>" ..
  ultimately show ?case by auto
qed

lemma setValue_frame:
  "setValue cfg radix val lz dppos s = Inr (ok, s') \<Longrightarrow> \<exists>d. s' = s\<lparr>display := d\<rparr>"
  by (auto simp: setValue_def split: sum.splits dest: setValue_loop_frame)

lemma begin_display_curdigit:
  "begin_display cfg dpins spins blank s = Inr s' \<Longrightarrow>
   curdigit s' = of_nat (if blank then numdigits cfg else 0)"
  by (auto simp: begin_display_def setBlank_def split: sum.splits)

lemma show_next_curdigit_le:
  "unat (curdigit s) \<le> numdigits cfg \<Longrightarrow> unat (curdigit (show_next cfg s)) \<le> numdigits cfg"
  using unat_of_nat_byte_le [of "Suc (unat (curdigit s))"]
  by (auto simp: show_next_def Let_def)

lemma setSegments_curdigit_le:
  "unat (curdigit s) \<le> numdigits cfg \<Longrightarrow>
   unat (curdigit (setSegments cfg i b sh s)) \<le> numdigits cfg"
  using unat_of_nat_byte_le [of i]
  by (auto simp: setSegments_def Let_def)

lemma exec_curdigit_le:
  "exec cfg c s = Inr s' \<Longrightarrow> unat (curdigit s) \<le> numdigits cfg \<Longrightarrow>
   unat (curdigit s') \<le> numdigits cfg"
proof (induction cfg c s rule: exec.induct)
  case (1 cfg dpins spins blank s)
  then show ?case
    using unat_of_nat_byte_le [of "numdigits cfg"] by (auto dest!: begin_display_curdigit)
next
  case (2 cfg s)
  then show ?case using show_next_curdigit_le by auto
next
  case (3 cfg onoff s)
  then show ?case
    using unat_of_nat_byte_le [of "numdigits cfg"] by (auto simp: setBlank_def)
next
  case (4 cfg index bitmap sh s)
  then show ?case using setSegments_curdigit_le by auto
next
  case (5 cfg index num dp sh s)
  then show ?case
    using setSegments_curdigit_le by (auto simp: setNumber_def array_read_def split: if_splits)
next
  case (6 cfg radix val leadingzero dppos s)
  then show ?case by (auto split: sum.splits dest!: setValue_frame)
next
  case (7 cfg index v s)
  then show ?case by (cases "subscript cfg index") auto
qed

subsection \<open>Indices out of range\<close>

text \<open>
  C8. For a digit index \<open>i\<close> outside \<open>[0, numdigits)\<close>, whatever the bitmap,
  the number, the decimal-point flag and the show flag,
  \<^verbatim>\<open>setSegments(i, ...)\<close> and \<^verbatim>\<open>setNumber(i, ...)\<close> return the object as it
  was: every element of the buffer, the cursor and the trace of pin writes are
  those before the call.
\<close>

theorem out_of_range_index_noop:
  "numdigits cfg \<le> i \<Longrightarrow>
     setSegments cfg i bitmap sh s = s \<and> setNumber cfg i num dp sh s = Inr s"
  by (simp add: setSegments_def setNumber_def)

theorem out_of_range_index_noop_witness:
  "numdigits timer_config \<le> 4 \<and>
   setSegments timer_config 4 0xFF True timer_display = timer_display \<and>
   setNumber timer_config 4 8 True True timer_display = Inr timer_display"
proof -
  have h: "numdigits timer_config \<le> 4" by (simp add: timer_config_def)
  show ?thesis
    using h out_of_range_index_noop [of timer_config 4 "0xFF" True timer_display 8 True] by simp
qed

subsection \<open>The indexed accessor\<close>

text \<open>
  C9. \<^verbatim>\<open>operator[]\<close> always designates storage of the object or the scratch
  variable. For an index \<open>i\<close> in range it designates element \<open>i\<close> of the buffer,
  and a bitmap stored by \<^verbatim>\<open>setSegments(i, b)\<close>, with or without the show
  flag, is the one read back through it. For an index out of range it
  designates the scratch variable, which is no element of the buffer: a read
  gives the scratch variable, a write changes nothing but the scratch variable,
  and the buffer is as before.
\<close>

theorem subscript_roundtrip:
  "valid_ref cfg (subscript cfg i) \<and>
   (i < numdigits cfg \<longrightarrow>
      subscript cfg i = DisplayRef i \<and>
      (length (display s) = numdigits cfg \<longrightarrow>
         ref_read (setSegments cfg i b sh s) (subscript cfg i) = b)) \<and>
   (numdigits cfg \<le> i \<longrightarrow>
      subscript cfg i = DummyRef \<and>
      (\<forall>j. subscript cfg i \<noteq> DisplayRef j) \<and>
      ref_read s (subscript cfg i) = dummy s \<and>
      ref_write (subscript cfg i) v s = s\<lparr>dummy := v\<rparr> \<and>
      display (ref_write (subscript cfg i) v s) = display s)"
  by (simp add: subscript_def setSegments_display)

theorem subscript_roundtrip_witness:
  "2 < numdigits timer_config \<and> length (display timer_display) = numdigits timer_config \<and>
   ref_read (setSegments timer_config 2 0x5B True timer_display) (subscript timer_config 2) = 0x5B \<and>
   numdigits timer_config \<le> 7 \<and>
   display (ref_write (subscript timer_config 7) 0xFF timer_display) = display timer_display"
proof -
  have a: "2 < numdigits timer_config" and c: "numdigits timer_config \<le> 7"
    by (simp_all add: timer_config_def)
  have b: "length (display timer_display) = numdigits timer_config"
    by (simp add: timer_display_eq static_storage_def)
  from a b subscript_roundtrip [of timer_config 2 timer_display "0x5B" True]
  have r: "ref_read (setSegments timer_config 2 0x5B True timer_display) (subscript timer_config 2) = 0x5B"
    by blast
  from c subscript_roundtrip [of timer_config 7 timer_display _ _ "0xFF"]
  have w: "display (ref_write (subscript timer_config 7) 0xFF timer_display) = display timer_display"
    by blast
  from a b c r w show ?thesis by blast
qed

subsection \<open>The table of setNumber\<close>

text \<open>
  C5. The range check of \<^verbatim>\<open>setNumber\<close> lets the number 16 through, and the
  table has the 16 elements 0 to 15: on the display of the Timer example,
  \<^verbatim>\<open>setNumber(0, 16)\<close> reads the table outside its bounds, where
  \<^verbatim>\<open>setNumber(0, 15)\<close> stores the glyph of F and \<^verbatim>\<open>setNumber(0, 17)\<close>
  does nothing.
\<close>

theorem setNumber_16_reads_past_table:
  "length table = 16 \<and>
   setNumber timer_config 0 16 False False timer_display = Inl OutOfBounds \<and>
   setNumber timer_config 0 15 False False timer_display =
     Inr (timer_display\<lparr>display := (display timer_display)[0 := 0x71]\<rparr>) \<and>
   setNumber timer_config 0 17 False False timer_display = Inr timer_display"
  by (simp add: setNumber_def timer_config_def array_read_def table_def setSegments_no_show)

subsection \<open>Blanking\<close>

text \<open>
  C7, as amended. On a display of 1 to 255 digits: after
  \<^verbatim>\<open>setBlank(true)\<close> the cursor is the number of digits and \<^verbatim>\<open>isBlank()\<close>
  is true; after \<^verbatim>\<open>setBlank(false)\<close> the cursor is 0, whatever it was,
  \<^verbatim>\<open>isBlank()\<close> is false and the last pin write drives the line of the
  leftmost digit active; and for a cursor of at most the number of digits,
  \<^verbatim>\<open>isBlank()\<close> is true exactly when the cursor is the number of digits.
\<close>

theorem setBlank_isBlank:
  assumes "0 < numdigits cfg" and "numdigits cfg < 256"
  shows "unat (curdigit (setBlank cfg True s)) = numdigits cfg \<and>
         isBlank cfg (setBlank cfg True s) \<and>
         curdigit (setBlank cfg False s) = 0 \<and>
         \<not> isBlank cfg (setBlank cfg False s) \<and>
         last (io (setBlank cfg False s)) = DigitalWrite (digitpins s ! 0) (digiton cfg) \<and>
         (unat (curdigit s) \<le> numdigits cfg \<longrightarrow>
            (isBlank cfg s \<longleftrightarrow> unat (curdigit s) = numdigits cfg))"
  using assms by (auto simp: setBlank_def isBlank_def unat_of_nat_byte showDigit_io)

theorem setBlank_isBlank_witness:
  "0 < numdigits timer_config \<and> numdigits timer_config < 256 \<and>
   unat (curdigit (setBlank timer_config True timer_display)) = 4 \<and>
   isBlank timer_config (setBlank timer_config True timer_display) \<and>
   \<not> isBlank timer_config (setBlank timer_config False (setBlank timer_config True timer_display))"
proof -
  have a: "0 < numdigits timer_config" and b: "numdigits timer_config < 256"
    by (simp_all add: timer_config_def)
  show ?thesis
    using a b setBlank_isBlank [OF a b, of timer_display]
      setBlank_isBlank [OF a b, of "setBlank timer_config True timer_display"]
    by (simp add: timer_config_def)
qed

text \<open>
  The cursor is a byte and cannot hold the number 256: on a display of 256
  digits, constructed in static storage, \<^verbatim>\<open>isBlank()\<close> is false after
  \<^verbatim>\<open>setBlank(true)\<close>. And \<^verbatim>\<open>isBlank()\<close> compares with \<^verbatim>\<open>>=\<close>: on
  a display of 4 digits constructed in storage that holds 200 where the
  cursor is, \<^verbatim>\<open>isBlank()\<close> is true and the cursor is not 4.
\<close>

theorem setBlank_256_digits_not_blank:
  "\<not> isBlank \<lparr>numdigits = 256, havedp = False, digiton = True, segmenton = True\<rparr>
       (setBlank \<lparr>numdigits = 256, havedp = False, digiton = True, segmenton = True\<rparr> True
          (Display7Seg \<lparr>numdigits = 256, havedp = False, digiton = True, segmenton = True\<rparr>
             (static_storage \<lparr>numdigits = 256, havedp = False, digiton = True, segmenton = True\<rparr>))) \<and>
   isBlank timer_config (Display7Seg timer_config (static_storage timer_config\<lparr>curdigit := 200\<rparr>)) \<and>
   unat (curdigit (Display7Seg timer_config (static_storage timer_config\<lparr>curdigit := 200\<rparr>)))
     \<noteq> numdigits timer_config"
proof -
  have "length (display (static_storage timer_config\<lparr>curdigit := 200\<rparr>)) = numdigits timer_config"
    by (simp add: static_storage_def)
  then have "curdigit (Display7Seg timer_config (static_storage timer_config\<lparr>curdigit := 200\<rparr>)) = 200"
    by (simp add: Display7Seg_eq)
  then show ?thesis
    by (simp add: isBlank_def setBlank_def timer_config_def)
qed

subsection \<open>Construction and the cursor\<close>

text \<open>
  C6, as amended. The constructor sets every element of the buffer to 0 and
  leaves the cursor as the storage of the object holds it, which is 0 for an
  object of static storage duration; and every public operation
  (\<^verbatim>\<open>begin\<close>, \<^verbatim>\<open>show\<close>, \<^verbatim>\<open>setBlank\<close>, \<^verbatim>\<open>setSegments\<close>,
  \<^verbatim>\<open>setNumber\<close>, \<^verbatim>\<open>setValue\<close>, an assignment through
  \<^verbatim>\<open>operator[]\<close>) that starts with a cursor of at most the number of digits
  ends with one.
\<close>

theorem cursor_invariant:
  "(length (display storage) = numdigits cfg \<longrightarrow>
      display (Display7Seg cfg storage) = replicate (numdigits cfg) 0 \<and>
      curdigit (Display7Seg cfg storage) = curdigit storage) \<and>
   curdigit (Display7Seg cfg (static_storage cfg)) = 0 \<and>
   (\<forall>c s'. exec cfg c s = Inr s' \<longrightarrow> unat (curdigit s) \<le> numdigits cfg \<longrightarrow>
      unat (curdigit s') \<le> numdigits cfg)"
proof -
  have "length (display (static_storage cfg)) = numdigits cfg"
    by (simp add: static_storage_def)
  then have "curdigit (Display7Seg cfg (static_storage cfg)) = 0"
    by (simp add: Display7Seg_eq) (simp add: static_storage_def)
  then show ?thesis
    using exec_curdigit_le by (auto simp: Display7Seg_eq)
qed

theorem cursor_invariant_witness:
  "length (display (static_storage timer_config)) = numdigits timer_config \<and>
   display (Display7Seg timer_config (static_storage timer_config)) = [0, 0, 0, 0] \<and>
   exec timer_config (SetBlank True) timer_display = Inr (setBlank timer_config True timer_display) \<and>
   unat (curdigit timer_display) \<le> numdigits timer_config \<and>
   unat (curdigit (setBlank timer_config True timer_display)) \<le> numdigits timer_config"
proof -
  have a: "length (display (static_storage timer_config)) = numdigits timer_config"
    by (simp add: static_storage_def)
  have b: "exec timer_config (SetBlank True) timer_display = Inr (setBlank timer_config True timer_display)"
    by simp
  have c: "unat (curdigit timer_display) \<le> numdigits timer_config"
    by (simp add: timer_display_eq static_storage_def)
  note inv = cursor_invariant [of "static_storage timer_config" timer_config timer_display]
  from inv a have "display (Display7Seg timer_config (static_storage timer_config)) = replicate (numdigits timer_config) 0"
    by blast
  moreover from inv b c
  have "unat (curdigit (setBlank timer_config True timer_display)) \<le> numdigits timer_config"
    by blast
  ultimately show ?thesis
    using a b c by (simp add: timer_config_def numeral_eq_Suc)
qed

text \<open>
  The global object of the Timer example, when its constructor has run: the
  cursor is 0, not the number of digits, and \<^verbatim>\<open>isBlank()\<close> is false.
\<close>

theorem constructor_cursor_not_blank:
  "unat (curdigit timer_display) \<noteq> numdigits timer_config \<and>
   \<not> isBlank timer_config timer_display"
  by (simp add: timer_display_eq isBlank_def) (simp add: static_storage_def timer_config_def)

subsection \<open>setValue\<close>

lemma of_nat_byte_le_16: "d < 16 \<Longrightarrow> (of_nat d :: byte) \<le> 16"
  by (simp add: word_le_nat_alt unat_of_nat_byte)

lemma setNumber_digit:
  assumes "i < numdigits cfg" and "d < 16"
  shows "setNumber cfg i (of_nat d) dp False s =
           Inr (s\<lparr>display := (display s)[i := glyph d OR (if dp then 0x80 else 0)]\<rparr>)"
proof -
  have "unat (of_nat d :: byte) = d" using assms by (simp add: unat_of_nat_byte)
  moreover have "length table = 16" by (simp add: table_def)
  ultimately show ?thesis
    using assms
    by (simp add: setNumber_def of_nat_byte_le_16 array_read_def setSegments_no_show glyph_def)
qed

lemma loop_body_eq:
  assumes "0 < radix" and "radix \<le> 16" and "i < numdigits cfg"
  shows "(if (of_nat (r mod radix) :: byte) \<noteq> 0 \<or> r \<noteq> 0 \<or> lz \<or> i \<ge> dppos \<or> i = numdigits cfg - 1
          then setNumber cfg i (of_nat (r mod radix)) (dppos = i) False s
          else Inr (setSegments cfg i (if dppos = i then 0x80 else 0) False s))
         = Inr (s\<lparr>display := (display s)[i := loop_entry cfg radix lz dppos i r]\<rparr>)"
proof -
  have d: "r mod radix < 16"
    using assms by (meson less_le_trans mod_less_divisor)
  have z: "(of_nat (r mod radix) :: byte) \<noteq> 0 \<Longrightarrow> r \<noteq> 0"
    by (cases "r = 0") simp_all
  show ?thesis
    using assms z
    by (auto simp: setNumber_digit [OF assms(3) d] setSegments_no_show loop_entry_def
        decimal_point_def)
qed

lemma setValue_loop_eq:
  assumes "0 < radix" and "radix \<le> 16"
  shows "k \<le> numdigits cfg \<Longrightarrow> length (display s) = numdigits cfg \<Longrightarrow>
         setValue_loop cfg radix lz dppos k v s =
           Inr (v div radix ^ k,
                s\<lparr>display := map (\<lambda>i. if i < k
                                        then loop_entry cfg radix lz dppos i (v div radix ^ (k - 1 - i))
                                        else display s ! i) [0..<numdigits cfg]\<rparr>)"
proof (induction k arbitrary: v s)
  case 0
  then have "map ((!) (display s)) [0..<numdigits cfg] = display s"
    by (metis map_nth)
  then show ?case by simp
next
  case (Suc k)
  let ?s1 = "s\<lparr>display := (display s)[k := loop_entry cfg radix lz dppos k v]\<rparr>"
  have k: "k < numdigits cfg" using Suc.prems by simp
  have step: "setValue_loop cfg radix lz dppos (Suc k) v s =
              setValue_loop cfg radix lz dppos k (v div radix) ?s1"
    using assms(1) unfolding setValue_loop.simps Let_def loop_body_eq [OF assms k] by simp
  have ih: "setValue_loop cfg radix lz dppos k (v div radix) ?s1 =
            Inr (v div radix div radix ^ k,
                 ?s1\<lparr>display := map (\<lambda>i. if i < k
                           then loop_entry cfg radix lz dppos i (v div radix div radix ^ (k - 1 - i))
                           else display ?s1 ! i) [0..<numdigits cfg]\<rparr>)"
    using Suc.prems by (intro Suc.IH) simp_all
  have val: "v div radix div radix ^ k = v div radix ^ Suc k"
    by (simp add: div_mult2_eq)
  have entries: "map (\<lambda>i. if i < k
                           then loop_entry cfg radix lz dppos i (v div radix div radix ^ (k - 1 - i))
                           else display ?s1 ! i) [0..<numdigits cfg]
               = map (\<lambda>i. if i < Suc k
                           then loop_entry cfg radix lz dppos i (v div radix ^ (Suc k - 1 - i))
                           else display s ! i) [0..<numdigits cfg]"
  proof (rule map_cong [OF refl])
    fix i assume "i \<in> set [0..<numdigits cfg]"
    then have i: "i < numdigits cfg" by simp
    consider "i < k" | "i = k" | "k < i" by linarith
    then show "(if i < k then loop_entry cfg radix lz dppos i (v div radix div radix ^ (k - 1 - i))
                else display ?s1 ! i)
             = (if i < Suc k then loop_entry cfg radix lz dppos i (v div radix ^ (Suc k - 1 - i))
                else display s ! i)"
    proof cases
      case 1
      then have "Suc k - 1 - i = Suc (k - 1 - i)" by simp
      then have "v div radix div radix ^ (k - 1 - i) = v div radix ^ (Suc k - 1 - i)"
        by (simp add: div_mult2_eq)
      with 1 show ?thesis by simp
    next
      case 2
      with k Suc.prems show ?thesis by simp
    next
      case 3
      then show ?thesis by simp
    qed
  qed
  show ?case
    unfolding step ih val entries by simp
qed

lemma expected_entry_loop_entry:
  assumes "0 < radix" and "i < numdigits cfg"
  shows "expected_entry cfg radix val lz dppos i =
         loop_entry cfg radix lz dppos i (val div radix ^ (numdigits cfg - 1 - i))"
proof -
  let ?r = "val div radix ^ (numdigits cfg - 1 - i)"
  have "numdigits cfg - i = Suc (numdigits cfg - 1 - i)" using assms by simp
  then have rem: "remaining_value radix (numdigits cfg) val i = ?r div radix"
    by (simp add: remaining_value_def power_Suc2 div_mult2_eq del: power_Suc)
  have "?r = 0" if a: "?r mod radix = 0" "?r div radix = 0"
  proof -
    from a(2) assms(1) have "?r < radix" by (simp add: div_eq_0_iff)
    then have "?r mod radix = ?r" by simp
    with a(1) show ?thesis by simp
  qed
  then have "?r = 0 \<longleftrightarrow> ?r mod radix = 0 \<and> ?r div radix = 0"
    by auto
  then show ?thesis
    by (auto simp: expected_entry_def loop_entry_def suppressed_def digit_at_def rem)
qed

lemma setValue_eq:
  assumes "0 < radix" and "radix \<le> 16" and "length (display s) = numdigits cfg"
  shows "setValue cfg radix val lz dppos s =
           Inr (val < radix ^ numdigits cfg,
                s\<lparr>display := map (expected_entry cfg radix val lz dppos) [0..<numdigits cfg]\<rparr>)"
proof -
  have "map (\<lambda>i. if i < numdigits cfg
                  then loop_entry cfg radix lz dppos i (val div radix ^ (numdigits cfg - 1 - i))
                  else display s ! i) [0..<numdigits cfg]
        = map (expected_entry cfg radix val lz dppos) [0..<numdigits cfg]"
    by (rule map_cong) (simp_all add: expected_entry_loop_entry [OF assms(1)])
  moreover have "val div radix ^ numdigits cfg = 0 \<longleftrightarrow> val < radix ^ numdigits cfg"
    using assms(1) by (simp add: div_eq_0_iff)
  ultimately show ?thesis
    using setValue_loop_eq [OF assms(1,2) le_refl assms(3), of lz dppos val]
    by (simp add: setValue_def)
qed

lemma digit_at_mod:
  assumes "0 < radix" and "i < n"
  shows "digit_at radix n (val mod radix ^ n) i = digit_at radix n val i"
proof -
  define p where "p = radix ^ (n - 1 - i)"
  define q where "q = radix ^ Suc i"
  have "n = (n - 1 - i) + Suc i" using assms(2) by simp
  then have "radix ^ n = radix ^ ((n - 1 - i) + Suc i)" by simp
  then have n: "radix ^ n = p * q"
    unfolding p_def q_def by (simp only: power_add)
  have p: "0 < p" using assms(1) by (simp add: p_def)
  have "val mod (p * q) = p * (val div p mod q) + val mod p"
    by (rule mod_mult2_eq)
  then have a: "val mod (p * q) div p = val div p mod q"
    using p by simp
  have "radix dvd q" by (simp add: q_def)
  then have b: "val div p mod q mod radix = val div p mod radix"
    by (rule mod_mod_cancel)
  show ?thesis
    unfolding digit_at_def n by (simp only: a b flip: p_def)
qed

lemma overflow_not_suppressed:
  assumes "0 < radix" and "i < numdigits cfg" and "\<not> val < radix ^ numdigits cfg"
  shows "\<not> suppressed cfg radix val lz dppos i"
proof -
  have "radix ^ (numdigits cfg - i) \<le> radix ^ numdigits cfg"
    using assms(1) by (intro power_increasing) simp_all
  with assms(3) have "radix ^ (numdigits cfg - i) \<le> val" by simp
  then have "remaining_value radix (numdigits cfg) val i \<noteq> 0"
    using assms(1) by (simp add: remaining_value_def div_eq_0_iff)
  then show ?thesis by (simp add: suppressed_def)
qed

lemma timer_display_length: "length (display timer_display) = numdigits timer_config"
  by (simp add: timer_display_eq static_storage_def)

text \<open>
  C1, as amended. For every value, every radix from 1 to 16, every
  leading-zero flag and every position \<open>dppos\<close> of the decimal point,
  \<^verbatim>\<open>setValue\<close> on a display of \<open>n\<close> digits returns, and entry \<open>i\<close> of the
  buffer then holds, with \<open>d = (value div radix^(n-1-i)) mod radix\<close> (the
  rightmost position taking the lowest digit): the glyph of \<open>d\<close>, with the
  decimal-point bit set exactly when \<open>i = dppos\<close>; except that when \<open>d = 0\<close>,
  the value above that digit is 0, leading zeros are not asked for,
  \<open>i < dppos\<close> and \<open>i \<noteq> n - 1\<close>, it holds the all-off pattern.
\<close>

theorem setValue_entries:
  assumes "0 < radix" and "radix \<le> 16" and "length (display s) = numdigits cfg"
  shows "\<exists>ok s'. setValue cfg radix val leadingzero dppos s = Inr (ok, s') \<and>
           length (display s') = numdigits cfg \<and>
           (\<forall>i < numdigits cfg.
              display s' ! i =
                (if digit_at radix (numdigits cfg) val i = 0 \<and>
                    remaining_value radix (numdigits cfg) val i = 0 \<and>
                    \<not> leadingzero \<and> i < dppos \<and> i \<noteq> numdigits cfg - 1
                 then decimal_point dppos i
                 else glyph (digit_at radix (numdigits cfg) val i) OR decimal_point dppos i))"
  using setValue_eq [OF assms, of val leadingzero dppos]
  by (simp add: expected_entry_def suppressed_def)

theorem setValue_entries_witness:
  "0 < (10::nat) \<and> (10::nat) \<le> 16 \<and> length (display timer_display) = numdigits timer_config \<and>
   (\<exists>ok s'. setValue timer_config 10 12 False 2 timer_display = Inr (ok, s') \<and>
      display s' ! 0 = 0 \<and> display s' ! 2 = 0x86 \<and> display s' ! 3 = 0x5B)"
proof -
  have a: "0 < (10::nat)" and b: "(10::nat) \<le> 16" by simp_all
  from setValue_entries [OF a b timer_display_length, of 12 False 2]
  obtain ok s' where r: "setValue timer_config 10 12 False 2 timer_display = Inr (ok, s')"
    and e: "\<And>i. i < numdigits timer_config \<Longrightarrow>
              display s' ! i =
                (if digit_at 10 (numdigits timer_config) 12 i = 0 \<and>
                    remaining_value 10 (numdigits timer_config) 12 i = 0 \<and>
                    \<not> False \<and> i < 2 \<and> i \<noteq> numdigits timer_config - 1
                 then decimal_point 2 i
                 else glyph (digit_at 10 (numdigits timer_config) 12 i) OR decimal_point 2 i)"
    by blast
  have n: "numdigits timer_config = 4" by (simp add: timer_config_def)
  have "display s' ! 0 = 0"
    by (subst e) (simp_all add: n digit_at_def remaining_value_def decimal_point_def)
  moreover have "display s' ! 2 = 0x86"
    by (subst e) (simp_all add: n digit_at_def remaining_value_def decimal_point_def glyph_def table_def)
  moreover have "display s' ! 3 = 0x5B"
    by (subst e) (simp_all add: n digit_at_def remaining_value_def decimal_point_def glyph_def table_def)
  ultimately show ?thesis using r timer_display_length by simp
qed

text \<open>
  With radix 20 the digit 17 does not pass the range check of
  \<^verbatim>\<open>setNumber\<close>: \<^verbatim>\<open>setValue<20>(17)\<close> on the display of the Timer
  example writes nothing at the rightmost position, which keeps what it held,
  here the glyph of 0 and then the glyph of 1.
\<close>

theorem setValue_radix_20_skips_digit:
  "setValue timer_config 20 17 False 4 (timer_display\<lparr>display := [0x3F, 0x3F, 0x3F, 0x3F]\<rparr>) =
     Inr (True, timer_display\<lparr>display := [0, 0, 0, 0x3F]\<rparr>) \<and>
   setValue timer_config 20 17 False 4 (timer_display\<lparr>display := [0x06, 0x06, 0x06, 0x06]\<rparr>) =
     Inr (True, timer_display\<lparr>display := [0, 0, 0, 0x06]\<rparr>)"
  unfolding timer_display_eq by code_simp

lemma setValue_loop_value:
  "setValue_loop cfg radix lz dppos k v s = Inr (v', s') \<Longrightarrow>
   v' = v div radix ^ k \<and> (k = 0 \<or> 0 < radix)"
proof (induction k arbitrary: v s)
  case 0
  then show ?case by simp
next
  case (Suc k)
  from Suc.prems have r: "0 < radix" by (cases "radix = 0") simp_all
  from Suc.prems r obtain s1 where
    "setValue_loop cfg radix lz dppos k (v div radix) s1 = Inr (v', s')"
    by (auto simp: Let_def split: if_splits sum.splits)
  from Suc.IH [OF this] have "v' = v div radix div radix ^ k" by simp
  then have "v' = v div radix ^ Suc k" by (simp add: div_mult2_eq)
  with r show ?case by simp
qed

lemma setValue_flag:
  assumes "setValue cfg radix val lz dppos s = Inr (ok, s')"
  shows "ok = (val < radix ^ numdigits cfg)"
proof -
  from assms obtain v' where
    l: "setValue_loop cfg radix lz dppos (numdigits cfg) val s = Inr (v', s')"
    and ok: "ok = (v' = 0)"
    by (auto simp: setValue_def split: sum.splits)
  from setValue_loop_value [OF l]
  have v': "v' = val div radix ^ numdigits cfg" and pos: "numdigits cfg = 0 \<or> 0 < radix"
    by simp_all
  from pos have "0 < radix ^ numdigits cfg" by auto
  then have "val div radix ^ numdigits cfg = 0 \<longleftrightarrow> val < radix ^ numdigits cfg"
    using div_eq_0_iff [of val "radix ^ numdigits cfg"] by auto
  with ok v' show ?thesis by simp
qed

text \<open>
  C4, as amended. For every radix, whenever \<^verbatim>\<open>setValue\<close> returns, it
  returns true exactly when \<open>value < radix^numdigits\<close>. For a radix from 1
  to 16 it does return, and when it returns false, every entry of the buffer
  holds the glyph of the digit of \<open>value mod radix^numdigits\<close> at its
  position (with the decimal-point bit at \<open>dppos\<close>), the digits above being
  lost.
\<close>

theorem setValue_overflow:
  "(\<forall>ok s'. setValue cfg radix val leadingzero dppos s = Inr (ok, s') \<longrightarrow>
      ok = (val < radix ^ numdigits cfg)) \<and>
   (0 < radix \<and> radix \<le> 16 \<and> length (display s) = numdigits cfg \<longrightarrow>
      (\<exists>s'. setValue cfg radix val leadingzero dppos s = Inr (val < radix ^ numdigits cfg, s') \<and>
         (\<not> val < radix ^ numdigits cfg \<longrightarrow>
            display s' =
              map (\<lambda>i. glyph (digit_at radix (numdigits cfg) (val mod radix ^ numdigits cfg) i)
                          OR decimal_point dppos i)
                [0..<numdigits cfg])))"
proof (intro conjI allI impI)
  fix ok s'
  assume "setValue cfg radix val leadingzero dppos s = Inr (ok, s')"
  then show "ok = (val < radix ^ numdigits cfg)" by (rule setValue_flag)
next
  assume a: "0 < radix \<and> radix \<le> 16 \<and> length (display s) = numdigits cfg"
  then have r: "0 < radix" by simp
  have "map (expected_entry cfg radix val leadingzero dppos) [0..<numdigits cfg] =
        map (\<lambda>i. glyph (digit_at radix (numdigits cfg) (val mod radix ^ numdigits cfg) i)
                            OR decimal_point dppos i) [0..<numdigits cfg]"
    if "\<not> val < radix ^ numdigits cfg"
    by (rule map_cong)
      (simp_all add: expected_entry_def overflow_not_suppressed [OF r _ that]
        digit_at_mod [OF r])
  then show "\<exists>s'. setValue cfg radix val leadingzero dppos s = Inr (val < radix ^ numdigits cfg, s') \<and>
         (\<not> val < radix ^ numdigits cfg \<longrightarrow>
            display s' =
              map (\<lambda>i. glyph (digit_at radix (numdigits cfg) (val mod radix ^ numdigits cfg) i)
                          OR decimal_point dppos i)
                [0..<numdigits cfg])"
    using a setValue_eq [of radix s cfg val leadingzero dppos] by simp
qed

theorem setValue_overflow_witness:
  "setValue \<lparr>numdigits = 1, havedp = False, digiton = True, segmenton = True\<rparr> 20 25 False 1
     \<lparr>digitpins = [2], segmentpins = [3, 4, 5, 6, 7, 8, 9], display = [0],
        curdigit = 0, dummy = 0, io = []\<rparr> =
   Inr (False,
     \<lparr>digitpins = [2], segmentpins = [3, 4, 5, 6, 7, 8, 9], display = [0x6D],
        curdigit = 0, dummy = 0, io = []\<rparr>) \<and>
   \<not> (25::nat) < 20 ^ numdigits \<lparr>numdigits = 1, havedp = False, digiton = True, segmenton = True\<rparr> \<and>
   0 < (2::nat) \<and> (2::nat) \<le> 16 \<and> length (display timer_display) = numdigits timer_config \<and>
   (\<exists>s'. setValue timer_config 2 21 False 4 timer_display = Inr (False, s') \<and>
      display s' = [0x3F, 0x06, 0x3F, 0x06])"
proof -
  let ?c1 = "\<lparr>numdigits = 1, havedp = False, digiton = True, segmenton = True\<rparr>"
  let ?s1 = "\<lparr>digitpins = [2], segmentpins = [3, 4, 5, 6, 7, 8, 9], display = [0],
        curdigit = 0, dummy = 0, io = []\<rparr> :: display7seg"
  let ?t1 = "\<lparr>digitpins = [2], segmentpins = [3, 4, 5, 6, 7, 8, 9], display = [0x6D],
        curdigit = 0, dummy = 0, io = []\<rparr> :: display7seg"
  have "\<exists>ok. setValue ?c1 20 25 False 1 ?s1 = Inr (ok, ?t1)"
    by code_simp
  then obtain ok where e: "setValue ?c1 20 25 False 1 ?s1 = Inr (ok, ?t1)" ..
  from setValue_overflow [of ?c1 20 25 False 1 ?s1] e
  have flag: "ok = ((25::nat) < 20 ^ numdigits ?c1)" by blast
  have nlt: "\<not> (25::nat) < 20 ^ numdigits ?c1" by simp
  with flag e have first: "setValue ?c1 20 25 False 1 ?s1 = Inr (False, ?t1)" by simp
  have n: "numdigits timer_config = 4" by (simp add: timer_config_def)
  from setValue_overflow [of timer_config 2 21 False 4 timer_display] timer_display_length
  obtain s' where r: "setValue timer_config 2 21 False 4 timer_display = Inr (False, s')"
    and d: "display s' =
              map (\<lambda>i. glyph (digit_at 2 (numdigits timer_config) (21 mod 2 ^ numdigits timer_config) i)
                           OR decimal_point 4 i) [0..<numdigits timer_config]"
    by (auto simp: n)
  have "map (\<lambda>i. glyph (digit_at 2 (numdigits timer_config) (21 mod 2 ^ numdigits timer_config) i)
                           OR decimal_point 4 i) [0..<numdigits timer_config]
        = [0x3F, 0x06, 0x3F, 0x06]"
    by code_simp
  with r d first nlt show ?thesis using timer_display_length by simp
qed

text \<open>
  With radix 20 on a display of one digit, \<^verbatim>\<open>setValue<20>(37)\<close> returns
  false and the buffer does not hold the digit 17 of \<open>37 mod 20\<close>: the entry
  keeps what it held, here the glyph of 0 and then the glyph of 1.
\<close>

theorem setValue_radix_20_overflow:
  "setValue \<lparr>numdigits = 1, havedp = False, digiton = True, segmenton = True\<rparr> 20 37 False 1
     \<lparr>digitpins = [2], segmentpins = [3, 4, 5, 6, 7, 8, 9], display = [0x3F],
        curdigit = 0, dummy = 0, io = []\<rparr> =
   Inr (False,
     \<lparr>digitpins = [2], segmentpins = [3, 4, 5, 6, 7, 8, 9], display = [0x3F],
        curdigit = 0, dummy = 0, io = []\<rparr>) \<and>
   setValue \<lparr>numdigits = 1, havedp = False, digiton = True, segmenton = True\<rparr> 20 37 False 1
     \<lparr>digitpins = [2], segmentpins = [3, 4, 5, 6, 7, 8, 9], display = [0x06],
        curdigit = 0, dummy = 0, io = []\<rparr> =
   Inr (False,
     \<lparr>digitpins = [2], segmentpins = [3, 4, 5, 6, 7, 8, 9], display = [0x06],
        curdigit = 0, dummy = 0, io = []\<rparr>)"
  by code_simp



subsection \<open>show\<close>

lemma cyclic_eq_le:
  fixes c n j k :: nat
  assumes "j \<le> k" and "k \<le> n" and "1 \<le> j" and "(c + j) mod n = (c + k) mod n"
  shows "j = k"
proof (rule ccontr)
  assume "j \<noteq> k"
  with assms have pos: "0 < k - j" and lt: "k - j < n" by simp_all
  have "(c + k) mod n = (c + j) mod n" using assms(4) by simp
  then have "n dvd (c + k) - (c + j)"
    using assms(1) by (simp add: mod_eq_dvd_iff_nat)
  then have "n dvd k - j" by simp
  then have "n \<le> k - j" using pos by (rule dvd_imp_le)
  with lt show False by simp
qed

lemma cyclic_inj: "inj_on (\<lambda>k. (c + k) mod n) {1..n}" for c n :: nat
proof (rule inj_onI)
  fix j k assume j: "j \<in> {1..n}" and k: "k \<in> {1..n}"
    and eq: "(c + j) mod n = (c + k) mod n"
  show "j = k"
  proof (cases "j \<le> k")
    case True
    with j k eq show ?thesis by (intro cyclic_eq_le [of j k n c]) simp_all
  next
    case False
    with j k eq have "k = j" by (intro cyclic_eq_le [of k j n c]) simp_all
    then show ?thesis by simp
  qed
qed

lemma cyclic_image: "(\<lambda>k. (c + k) mod n) ` {1..n} = {0..<n}" for c n :: nat
proof (rule card_subset_eq)
  show "finite {0..<n}" by simp
  show "(\<lambda>k. (c + k) mod n) ` {1..n} \<subseteq> {0..<n}"
    by auto
  show "card ((\<lambda>k. (c + k) mod n) ` {1..n}) = card {0..<n}"
    using card_image [OF cyclic_inj [of c n]] by simp
qed

lemma show_next_eq:
  "unat (curdigit s) < numdigits cfg \<Longrightarrow>
   show_next cfg s = showDigit cfg ((unat (curdigit s) + 1) mod numdigits cfg) s"
  by (auto simp: show_next_def Let_def not_le le_Suc_eq mod_Suc)

lemma show_next_cursor:
  assumes "unat (curdigit s) < numdigits cfg" and "numdigits cfg \<le> 256"
  shows "unat (curdigit (show_next cfg s)) = (unat (curdigit s) + 1) mod numdigits cfg"
proof -
  have "(unat (curdigit s) + 1) mod numdigits cfg < numdigits cfg"
    using assms(1) by (intro mod_less_divisor) simp
  with assms(2) have "(unat (curdigit s) + 1) mod numdigits cfg < 256" by simp
  then show ?thesis
    by (simp add: show_next_eq [OF assms(1)] unat_of_nat_byte del: One_nat_def)
qed

lemma show_next_funpow_cursor:
  assumes "unat (curdigit s) < numdigits cfg" and "numdigits cfg \<le> 256"
  shows "unat (curdigit ((show_next cfg ^^ k) s)) = (unat (curdigit s) + k) mod numdigits cfg"
proof (induction k)
  case 0
  then show ?case using assms(1) by simp
next
  case (Suc k)
  have "unat (curdigit ((show_next cfg ^^ k) s)) < numdigits cfg"
    using assms(1) by (simp add: Suc.IH)
  from show_next_cursor [OF this assms(2)]
  show ?case by (simp add: Suc.IH mod_Suc_eq)
qed

text \<open>
  C3, as amended. On a display of at most 256 digits: if the display is
  blanked, \<^verbatim>\<open>show()\<close> returns the object as it was (buffer, cursor and
  pin writes); otherwise it is \<^verbatim>\<open>showDigit\<close> of
  \<open>(cursor + 1) mod numdigits\<close>, which becomes the cursor. So after \<open>k\<close>
  calls the cursor is \<open>(cursor + k) mod numdigits\<close>: the calls 1 to
  \<open>numdigits\<close> visit every digit index exactly once, each one after its left
  neighbour and the leftmost after the rightmost; the cursor is then where
  it was before the first call, and call \<open>numdigits + 1\<close> shows again the
  digit that the first call showed.
\<close>

theorem show_cycles:
  assumes "numdigits cfg \<le> 256"
  shows "(isBlank cfg s \<longrightarrow> show_next cfg s = s) \<and>
         (\<not> isBlank cfg s \<longrightarrow>
            show_next cfg s = showDigit cfg ((unat (curdigit s) + 1) mod numdigits cfg) s \<and>
            unat (curdigit (show_next cfg s)) = (unat (curdigit s) + 1) mod numdigits cfg \<and>
            (\<forall>k. unat (curdigit ((show_next cfg ^^ k) s)) =
                   (unat (curdigit s) + k) mod numdigits cfg) \<and>
            distinct (map (\<lambda>k. unat (curdigit ((show_next cfg ^^ k) s)))
                        [1..<Suc (numdigits cfg)]) \<and>
            set (map (\<lambda>k. unat (curdigit ((show_next cfg ^^ k) s)))
                   [1..<Suc (numdigits cfg)]) = {0..<numdigits cfg} \<and>
            curdigit ((show_next cfg ^^ numdigits cfg) s) = curdigit s \<and>
            curdigit ((show_next cfg ^^ Suc (numdigits cfg)) s) = curdigit (show_next cfg s))"
proof (intro conjI impI)
  assume "isBlank cfg s"
  then show "show_next cfg s = s" by (simp add: show_next_def isBlank_def)
next
  assume "\<not> isBlank cfg s"
  then have c: "unat (curdigit s) < numdigits cfg" by (simp add: isBlank_def)
  note pow = show_next_funpow_cursor [OF c assms]
  show "show_next cfg s = showDigit cfg ((unat (curdigit s) + 1) mod numdigits cfg) s"
    by (rule show_next_eq [OF c])
  show "unat (curdigit (show_next cfg s)) = (unat (curdigit s) + 1) mod numdigits cfg"
    by (rule show_next_cursor [OF c assms])
  show "\<forall>k. unat (curdigit ((show_next cfg ^^ k) s)) =
                   (unat (curdigit s) + k) mod numdigits cfg"
    by (simp add: pow)
  have set: "set [1..<Suc (numdigits cfg)] = {1..numdigits cfg}" by auto
  show "distinct (map (\<lambda>k. unat (curdigit ((show_next cfg ^^ k) s)))
                        [1..<Suc (numdigits cfg)])"
    unfolding pow distinct_map set using cyclic_inj by simp
  show "set (map (\<lambda>k. unat (curdigit ((show_next cfg ^^ k) s)))
                   [1..<Suc (numdigits cfg)]) = {0..<numdigits cfg}"
    unfolding pow set_map set by (rule cyclic_image)
  have "unat (curdigit ((show_next cfg ^^ numdigits cfg) s)) = unat (curdigit s)"
    using c by (simp add: pow)
  then show "curdigit ((show_next cfg ^^ numdigits cfg) s) = curdigit s"
    by (simp only: word_unat_eq_iff)
  have "unat (curdigit ((show_next cfg ^^ Suc (numdigits cfg)) s)) = unat (curdigit (show_next cfg s))"
  proof -
    have "(unat (curdigit s) + Suc (numdigits cfg)) mod numdigits cfg =
          (unat (curdigit s) + 1 + numdigits cfg) mod numdigits cfg"
      by (simp add: add.commute)
    also have "\<dots> = (unat (curdigit s) + 1) mod numdigits cfg"
      by (rule mod_add_self2)
    finally show ?thesis
      unfolding pow show_next_cursor [OF c assms] .
  qed
  then show "curdigit ((show_next cfg ^^ Suc (numdigits cfg)) s) = curdigit (show_next cfg s)"
    by (simp only: word_unat_eq_iff)
qed

theorem show_cycles_witness:
  "numdigits timer_config \<le> 256 \<and> \<not> isBlank timer_config timer_display \<and>
   unat (curdigit (show_next timer_config timer_display)) = 1 \<and>
   curdigit ((show_next timer_config ^^ numdigits timer_config) timer_display) =
     curdigit timer_display \<and>
   isBlank timer_config (setBlank timer_config True timer_display) \<and>
   show_next timer_config (setBlank timer_config True timer_display) =
     setBlank timer_config True timer_display"
proof -
  have a: "numdigits timer_config \<le> 256" by (simp add: timer_config_def)
  have nb: "\<not> isBlank timer_config timer_display"
    by (simp add: timer_display_eq isBlank_def static_storage_def timer_config_def)
  have b: "isBlank timer_config (setBlank timer_config True timer_display)"
    by (simp add: isBlank_def setBlank_def timer_config_def)
  have c: "(unat (curdigit timer_display) + 1) mod numdigits timer_config = 1"
    by (simp add: timer_display_eq static_storage_def timer_config_def)
  from nb show_cycles [OF a, of timer_display]
  have "unat (curdigit (show_next timer_config timer_display)) =
          (unat (curdigit timer_display) + 1) mod numdigits timer_config"
    and "curdigit ((show_next timer_config ^^ numdigits timer_config) timer_display) =
          curdigit timer_display"
    by blast+
  moreover from b show_cycles [OF a, of "setBlank timer_config True timer_display"]
  have "show_next timer_config (setBlank timer_config True timer_display) =
          setBlank timer_config True timer_display"
    by blast
  ultimately show ?thesis using a nb b c by simp
qed

text \<open>
  The cursor is a byte: on a display of 300 digits that shows digit 255,
  \<^verbatim>\<open>show()\<close> moves to digit 256 and leaves 0 in the cursor.
\<close>

theorem show_300_digits_wraps:
  "\<not> isBlank \<lparr>numdigits = 300, havedp = False, digiton = True, segmenton = True\<rparr>
       (static_storage \<lparr>numdigits = 300, havedp = False, digiton = True, segmenton = True\<rparr>
          \<lparr>curdigit := 255\<rparr>) \<and>
   unat (curdigit (show_next \<lparr>numdigits = 300, havedp = False, digiton = True, segmenton = True\<rparr>
           (static_storage \<lparr>numdigits = 300, havedp = False, digiton = True, segmenton = True\<rparr>
              \<lparr>curdigit := 255\<rparr>)))
     \<noteq> (unat (curdigit
              (static_storage \<lparr>numdigits = 300, havedp = False, digiton = True, segmenton = True\<rparr>
                 \<lparr>curdigit := 255\<rparr>)) + 1)
         mod numdigits \<lparr>numdigits = 300, havedp = False, digiton = True, segmenton = True\<rparr>"
  by (simp add: show_next_def Let_def isBlank_def)

subsection \<open>The digit-select lines\<close>

lemma levels_append: "levels (tr @ es) = fold drive es (levels tr)"
  by (simp add: levels_def)

lemma levels_snoc: "levels (tr @ [e]) = drive e (levels tr)"
  by (simp add: levels_def)

lemma never_two_active_iff:
  "never_two_active cfg dpins tr \<longleftrightarrow>
     (\<forall>k \<le> length tr. length (active_digit_lines cfg dpins (levels (take k tr))) \<le> 1)"
  by (auto simp: never_two_active_def list_all_iff less_Suc_eq_le)

lemma never_two_active_snoc:
  "never_two_active cfg dpins (tr @ [e]) \<longleftrightarrow>
     never_two_active cfg dpins tr \<and>
     length (active_digit_lines cfg dpins (levels (tr @ [e]))) \<le> 1"
proof -
  have "(\<forall>k \<le> Suc (length tr). length (active_digit_lines cfg dpins (levels (take k (tr @ [e])))) \<le> 1)
        \<longleftrightarrow> (\<forall>k \<le> length tr. length (active_digit_lines cfg dpins (levels (take k tr))) \<le> 1) \<and>
            length (active_digit_lines cfg dpins (levels (tr @ [e]))) \<le> 1"
    by (auto simp: le_Suc_eq)
  then show ?thesis by (simp add: never_two_active_iff)
qed

lemma active_set:
  "set (active_digit_lines cfg dpins lv) = {p \<in> set dpins. lv p = Some (digiton cfg)}"
  by (simp add: active_digit_lines_def)

lemma active_at_most_one:
  assumes "distinct dpins" and "set (active_digit_lines cfg dpins lv) \<subseteq> {q}"
  shows "length (active_digit_lines cfg dpins lv) \<le> 1"
proof -
  have "distinct (active_digit_lines cfg dpins lv)"
    using assms(1) by (simp add: active_digit_lines_def)
  then have "length (active_digit_lines cfg dpins lv) = card (set (active_digit_lines cfg dpins lv))"
    by (simp add: distinct_card)
  also have "\<dots> \<le> card {q}"
    using assms(2) by (intro card_mono) simp_all
  finally show ?thesis by simp
qed

lemma active_quiet:
  "quiet cfg dpins e \<Longrightarrow>
   set (active_digit_lines cfg dpins (drive e lv)) \<subseteq> set (active_digit_lines cfg dpins lv)"
  by (cases e) (auto simp: active_set)

lemma active_off:
  "set (active_digit_lines cfg dpins (drive (DigitalWrite q (\<not> digiton cfg)) lv))
     = set (active_digit_lines cfg dpins lv) - {q}"
  by (auto simp: active_set)

lemma active_on:
  "set (active_digit_lines cfg dpins (drive (DigitalWrite q (digiton cfg)) lv))
     \<subseteq> insert q (set (active_digit_lines cfg dpins lv))"
  by (auto simp: active_set)

lemma trace_quiet:
  assumes "distinct dpins" and "never_two_active cfg dpins tr"
    and "set (active_digit_lines cfg dpins (levels tr)) \<subseteq> {q}"
  shows "\<forall>e \<in> set es. quiet cfg dpins e \<Longrightarrow>
         never_two_active cfg dpins (tr @ es) \<and>
         set (active_digit_lines cfg dpins (levels (tr @ es)))
           \<subseteq> set (active_digit_lines cfg dpins (levels tr))"
proof (induction es rule: rev_induct)
  case Nil
  then show ?case using assms(2) by simp
next
  case (snoc e es)
  then have ih: "never_two_active cfg dpins (tr @ es)"
    and sub: "set (active_digit_lines cfg dpins (levels (tr @ es)))
           \<subseteq> set (active_digit_lines cfg dpins (levels tr))"
    and e: "quiet cfg dpins e"
    by simp_all
  have sub': "set (active_digit_lines cfg dpins (levels ((tr @ es) @ [e])))
           \<subseteq> set (active_digit_lines cfg dpins (levels tr))"
    unfolding levels_snoc using active_quiet [OF e] sub by blast
  with assms(3) have "set (active_digit_lines cfg dpins (levels ((tr @ es) @ [e]))) \<subseteq> {q}"
    by blast
  from active_at_most_one [OF assms(1) this] ih sub'
  show ?case
    using never_two_active_snoc [of cfg dpins "tr @ es" e] by simp
qed

lemma trace_off:
  assumes "distinct dpins" and "never_two_active cfg dpins tr"
    and "set (active_digit_lines cfg dpins (levels tr)) \<subseteq> {q}"
  shows "never_two_active cfg dpins (tr @ [DigitalWrite q (\<not> digiton cfg)]) \<and>
         set (active_digit_lines cfg dpins (levels (tr @ [DigitalWrite q (\<not> digiton cfg)]))) = {}"
proof -
  have empty: "set (active_digit_lines cfg dpins (levels (tr @ [DigitalWrite q (\<not> digiton cfg)]))) = {}"
    unfolding levels_snoc active_off using assms(3) by blast
  then have "set (active_digit_lines cfg dpins (levels (tr @ [DigitalWrite q (\<not> digiton cfg)]))) \<subseteq> {q}"
    by simp
  from active_at_most_one [OF assms(1) this] assms(2) empty
  show ?thesis by (simp add: never_two_active_snoc)
qed

lemma trace_on:
  assumes "distinct dpins" and "never_two_active cfg dpins tr"
    and "set (active_digit_lines cfg dpins (levels tr)) \<subseteq> {q}"
  shows "never_two_active cfg dpins (tr @ [DigitalWrite q (digiton cfg)]) \<and>
         set (active_digit_lines cfg dpins (levels (tr @ [DigitalWrite q (digiton cfg)]))) \<subseteq> {q}"
proof -
  have sub: "set (active_digit_lines cfg dpins (levels (tr @ [DigitalWrite q (digiton cfg)]))) \<subseteq> {q}"
    unfolding levels_snoc using active_on [of cfg dpins q "levels tr"] assms(3) by blast
  from active_at_most_one [OF assms(1) this] assms(2) sub
  show ?thesis by (simp add: never_two_active_snoc)
qed

lemma segment_writes_quiet:
  assumes "set spins \<inter> set dpins = {}" and "length spins = numsegments cfg"
  shows "\<forall>e \<in> set (segment_writes cfg spins b). quiet cfg dpins e"
proof
  fix e assume "e \<in> set (segment_writes cfg spins b)"
  then obtain j where j: "j < numsegments cfg"
    and e: "e = DigitalWrite (spins ! j) (if bit b j then segmenton cfg else \<not> segmenton cfg)"
    by (auto simp: segment_writes_def)
  from j assms(2) have "spins ! j \<in> set spins" by simp
  with assms(1) have "spins ! j \<notin> set dpins" by blast
  with e show "quiet cfg dpins e" by simp
qed

lemma showDigit_line_inv:
  assumes dist: "distinct (dpins @ spins)"
    and len: "length spins = numsegments cfg"
    and small: "numdigits cfg < 256"
    and inv: "line_inv cfg dpins spins s"
  shows "line_inv cfg dpins spins (showDigit cfg m s)"
proof -
  let ?n = "numdigits cfg" and ?c = "unat (curdigit s)"
  let ?act = "\<lambda>tr. set (active_digit_lines cfg dpins (levels tr))"
  let ?b = "if m < ?n then display s ! m else 0"
  let ?E1 = "if ?c < ?n
             then (if m \<noteq> ?c then [DigitalWrite (dpins ! ?c) (\<not> digiton cfg)] else [])
                  @ segment_writes cfg spins ?b
             else []"
  let ?E2 = "if m < ?n then [DigitalWrite (dpins ! m) (digiton cfg)] else []"
  from dist have d: "distinct dpins" and disj: "set spins \<inter> set dpins = {}" by auto
  from inv have pins: "digitpins s = dpins" "segmentpins s = spins"
    and safe: "never_two_active cfg dpins (io s)"
    and act: "?act (io s) \<subseteq> (if ?c < ?n then {dpins ! ?c} else {})"
    by (simp_all add: line_inv_def)
  note q = segment_writes_quiet [OF disj len, of ?b]
  have io: "io (showDigit cfg m s) = (io s @ ?E1) @ ?E2"
    by (simp add: showDigit_io pins)
  have one: "never_two_active cfg dpins (io s @ ?E1) \<and>
             ?act (io s @ ?E1) \<subseteq> (if m < ?n then {dpins ! m} else {})"
  proof (cases "?c < ?n")
    case False
    with safe act show ?thesis by simp
  next
    case c: True
    show ?thesis
    proof (cases "m = ?c")
      case True
      from act c have "?act (io s) \<subseteq> {dpins ! ?c}" by simp
      from trace_quiet [OF d safe this q] this c True
      show ?thesis by auto
    next
      case False
      from act c have a: "?act (io s) \<subseteq> {dpins ! ?c}" by simp
      let ?tr = "io s @ [DigitalWrite (dpins ! ?c) (\<not> digiton cfg)]"
      from trace_off [OF d safe a]
      have s1: "never_two_active cfg dpins ?tr" and e1: "?act ?tr = {}" by simp_all
      from e1 have "?act ?tr \<subseteq> {dpins ! ?c}" by simp
      from trace_quiet [OF d s1 this q] e1
      have "never_two_active cfg dpins (?tr @ segment_writes cfg spins ?b)"
        and "?act (?tr @ segment_writes cfg spins ?b) = {}"
        by auto
      with c False show ?thesis by simp
    qed
  qed
  have two: "never_two_active cfg dpins ((io s @ ?E1) @ ?E2) \<and>
             ?act ((io s @ ?E1) @ ?E2) \<subseteq> (if m < ?n then {dpins ! m} else {})"
  proof (cases "m < ?n")
    case True
    with one have "never_two_active cfg dpins (io s @ ?E1)" and "?act (io s @ ?E1) \<subseteq> {dpins ! m}"
      by simp_all
    from trace_on [OF d this] True show ?thesis by simp
  next
    case False
    with one show ?thesis by simp
  qed
  have cur: "m < ?n \<Longrightarrow> unat (curdigit (showDigit cfg m s)) = m"
    using small by (simp add: unat_of_nat_byte)
  have "?act (io (showDigit cfg m s))
          \<subseteq> (if unat (curdigit (showDigit cfg m s)) < ?n
              then {dpins ! unat (curdigit (showDigit cfg m s))} else {})"
  proof (cases "m < ?n")
    case True
    with two cur show ?thesis unfolding io by simp
  next
    case False
    with two have "?act (io (showDigit cfg m s)) = {}" unfolding io by simp
    then show ?thesis by simp
  qed
  with two show ?thesis
    unfolding line_inv_def io [symmetric] by (simp add: pins)
qed

lemma distinct_byte_length:
  fixes xs :: "byte list"
  assumes "distinct xs"
  shows "length xs \<le> 256"
proof -
  have "length xs = card (set xs)" using assms by (simp add: distinct_card)
  also have "\<dots> \<le> card (UNIV :: byte set)" by (intro card_mono) simp_all
  also have "\<dots> = 256" by (simp add: card_word)
  finally show ?thesis .
qed

lemma line_inv_display [simp]:
  "line_inv cfg dpins spins (s\<lparr>display := d\<rparr>) = line_inv cfg dpins spins s"
  by (simp add: line_inv_def)

lemma line_inv_dummy [simp]:
  "line_inv cfg dpins spins (s\<lparr>dummy := v\<rparr>) = line_inv cfg dpins spins s"
  by (simp add: line_inv_def)

lemma setSegments_line_inv:
  assumes "distinct (dpins @ spins)" and "length spins = numsegments cfg"
    and "numdigits cfg < 256" and "line_inv cfg dpins spins s"
  shows "line_inv cfg dpins spins (setSegments cfg i b sh s)"
  using assms showDigit_line_inv [OF assms(1-3), of "s\<lparr>display := (display s)[i := b]\<rparr>" i]
  by (simp add: setSegments_def Let_def)

lemma exec_line_inv:
  assumes dist: "distinct (dpins @ spins)" and len: "length spins = numsegments cfg"
    and small: "numdigits cfg < 256"
    and c: "\<not> is_begin c" and ex: "exec cfg c s = Inr s'" and inv: "line_inv cfg dpins spins s"
  shows "line_inv cfg dpins spins s'"
proof (cases c)
  case (Begin d sp bl)
  with c show ?thesis by simp
next
  case Show
  with ex inv showDigit_line_inv [OF dist len small inv] show ?thesis
    by (auto simp: show_next_def Let_def split: if_splits)
next
  case (SetBlank onoff)
  with ex showDigit_line_inv [OF dist len small inv] show ?thesis
    by (auto simp: setBlank_def)
next
  case (SetSegments i b sh)
  with ex setSegments_line_inv [OF dist len small inv] show ?thesis by auto
next
  case (SetNumber i num dp sh)
  with ex inv setSegments_line_inv [OF dist len small inv] show ?thesis
    by (auto simp: setNumber_def array_read_def split: if_splits)
next
  case (SetValue radix val lz dppos)
  with ex inv show ?thesis
    by (auto split: sum.splits dest!: setValue_frame)
next
  case (Assign i v)
  with ex inv show ?thesis by (cases "subscript cfg i") auto
qed

lemma run_line_inv:
  assumes "distinct (dpins @ spins)" and "length spins = numsegments cfg"
    and "numdigits cfg < 256"
  shows "\<forall>c \<in> set cs. \<not> is_begin c \<Longrightarrow> run cfg cs s = Inr s' \<Longrightarrow>
         line_inv cfg dpins spins s \<Longrightarrow> line_inv cfg dpins spins s'"
proof (induction cs arbitrary: s)
  case Nil
  then show ?case by simp
next
  case (Cons c cs)
  from Cons.prems(2) obtain s1 where e: "exec cfg c s = Inr s1" and r: "run cfg cs s1 = Inr s'"
    by (auto split: sum.splits)
  from Cons.prems(1) have "\<not> is_begin c" by simp
  from exec_line_inv [OF assms this e Cons.prems(3)] have "line_inv cfg dpins spins s1" .
  with Cons.IH [OF _ r] Cons.prems(1) show ?case by simp
qed

lemma digitpins_loop_eq:
  "i \<le> numdigits cfg \<Longrightarrow> numdigits cfg \<le> length dpins \<Longrightarrow>
   length (digitpins s) = numdigits cfg \<Longrightarrow>
   digitpins_loop cfg dpins i s =
     Inr (s\<lparr>digitpins := take i (digitpins s) @ drop i (take (numdigits cfg) dpins),
            io := io s @ concat (map (\<lambda>j. [PinMode (dpins ! j),
                                           DigitalWrite (dpins ! j) (\<not> digiton cfg)])
                                  [i..<numdigits cfg])\<rparr>)"
proof (induction cfg dpins i s rule: digitpins_loop.induct)
  case (1 cfg dpins i s)
  show ?case
  proof (cases "i < numdigits cfg")
    case False
    with "1.prems" show ?thesis by (subst digitpins_loop.simps) simp
  next
    case True
    let ?p = "dpins ! i"
    let ?s = "digitalWrite ?p (\<not> digiton cfg) (pinMode ?p (s\<lparr>digitpins := (digitpins s)[i := ?p]\<rparr>))"
    have rd: "array_read dpins i = Inr ?p"
      using True "1.prems" by (simp add: array_read_def)
    have "digitpins_loop cfg dpins i s = digitpins_loop cfg dpins (Suc i) ?s"
      using True by (subst digitpins_loop.simps) (simp add: rd)
    also have "\<dots> = Inr (?s\<lparr>digitpins := take (Suc i) (digitpins ?s) @ drop (Suc i) (take (numdigits cfg) dpins),
            io := io ?s @ concat (map (\<lambda>j. [PinMode (dpins ! j),
                                           DigitalWrite (dpins ! j) (\<not> digiton cfg)])
                                  [Suc i..<numdigits cfg])\<rparr>)"
      using True "1.prems" rd
      by (intro "1.IH") (simp_all add: digitalWrite_def pinMode_def)
    also have "take (Suc i) (digitpins ?s) @ drop (Suc i) (take (numdigits cfg) dpins)
               = take i (digitpins s) @ drop i (take (numdigits cfg) dpins)"
    proof -
      have "take (Suc i) ((digitpins s)[i := ?p]) = take i (digitpins s) @ [?p]"
        using True "1.prems" by (simp add: take_Suc_conv_app_nth)
      moreover have "drop i (take (numdigits cfg) dpins)
                     = ?p # drop (Suc i) (take (numdigits cfg) dpins)"
        using True "1.prems" by (simp add: Cons_nth_drop_Suc [symmetric])
      ultimately show ?thesis by (simp add: digitalWrite_def pinMode_def)
    qed
    also have "io ?s @ concat (map (\<lambda>j. [PinMode (dpins ! j),
                                           DigitalWrite (dpins ! j) (\<not> digiton cfg)])
                                  [Suc i..<numdigits cfg])
               = io s @ concat (map (\<lambda>j. [PinMode (dpins ! j),
                                           DigitalWrite (dpins ! j) (\<not> digiton cfg)])
                                  [i..<numdigits cfg])"
      using True by (simp add: upt_conv_Cons digitalWrite_def pinMode_def)
    finally show ?thesis by (simp add: digitalWrite_def pinMode_def)
  qed
qed

lemma segmentpins_loop_eq:
  "i \<le> numsegments cfg \<Longrightarrow> numsegments cfg \<le> length spins \<Longrightarrow>
   length (segmentpins s) = numsegments cfg \<Longrightarrow>
   segmentpins_loop cfg spins i s =
     Inr (s\<lparr>segmentpins := take i (segmentpins s) @ drop i (take (numsegments cfg) spins),
            io := io s @ concat (map (\<lambda>j. [PinMode (spins ! j),
                                           DigitalWrite (spins ! j) (\<not> segmenton cfg)])
                                  [i..<numsegments cfg])\<rparr>)"
proof (induction cfg spins i s rule: segmentpins_loop.induct)
  case (1 cfg spins i s)
  show ?case
  proof (cases "i < numsegments cfg")
    case False
    with "1.prems" show ?thesis by (subst segmentpins_loop.simps) simp
  next
    case True
    let ?p = "spins ! i"
    let ?s = "digitalWrite ?p (\<not> segmenton cfg) (pinMode ?p (s\<lparr>segmentpins := (segmentpins s)[i := ?p]\<rparr>))"
    have rd: "array_read spins i = Inr ?p"
      using True "1.prems" by (simp add: array_read_def)
    have "segmentpins_loop cfg spins i s = segmentpins_loop cfg spins (Suc i) ?s"
      using True by (subst segmentpins_loop.simps) (simp add: rd)
    also have "\<dots> = Inr (?s\<lparr>segmentpins := take (Suc i) (segmentpins ?s) @ drop (Suc i) (take (numsegments cfg) spins),
            io := io ?s @ concat (map (\<lambda>j. [PinMode (spins ! j),
                                           DigitalWrite (spins ! j) (\<not> segmenton cfg)])
                                  [Suc i..<numsegments cfg])\<rparr>)"
      using True "1.prems" rd
      by (intro "1.IH") (simp_all add: digitalWrite_def pinMode_def)
    also have "take (Suc i) (segmentpins ?s) @ drop (Suc i) (take (numsegments cfg) spins)
               = take i (segmentpins s) @ drop i (take (numsegments cfg) spins)"
    proof -
      have "take (Suc i) ((segmentpins s)[i := ?p]) = take i (segmentpins s) @ [?p]"
        using True "1.prems" by (simp add: take_Suc_conv_app_nth)
      moreover have "drop i (take (numsegments cfg) spins)
                     = ?p # drop (Suc i) (take (numsegments cfg) spins)"
        using True "1.prems" by (simp add: Cons_nth_drop_Suc [symmetric])
      ultimately show ?thesis by (simp add: digitalWrite_def pinMode_def)
    qed
    also have "io ?s @ concat (map (\<lambda>j. [PinMode (spins ! j),
                                           DigitalWrite (spins ! j) (\<not> segmenton cfg)])
                                  [Suc i..<numsegments cfg])
               = io s @ concat (map (\<lambda>j. [PinMode (spins ! j),
                                           DigitalWrite (spins ! j) (\<not> segmenton cfg)])
                                  [i..<numsegments cfg])"
      using True by (simp add: upt_conv_Cons digitalWrite_def pinMode_def)
    finally show ?thesis by (simp add: digitalWrite_def pinMode_def)
  qed
qed

lemma begin_display_eq:
  assumes "length dpins = numdigits cfg" and "length spins = numsegments cfg"
    and "well_sized cfg s"
  shows "begin_display cfg dpins spins blank s =
           Inr (setBlank cfg blank
                  (s\<lparr>digitpins := dpins, segmentpins := spins,
                      io := io s
                        @ concat (map (\<lambda>j. [PinMode (dpins ! j),
                                               DigitalWrite (dpins ! j) (\<not> digiton cfg)])
                                    [0..<numdigits cfg])
                        @ concat (map (\<lambda>j. [PinMode (spins ! j),
                                               DigitalWrite (spins ! j) (\<not> segmenton cfg)])
                                    [0..<numsegments cfg])\<rparr>))"
proof -
  from assms(3) have ls: "length (digitpins s) = numdigits cfg"
    "length (segmentpins s) = numsegments cfg"
    by (simp_all add: well_sized_def)
  have d: "digitpins_loop cfg dpins 0 s =
     Inr (s\<lparr>digitpins := dpins,
            io := io s @ concat (map (\<lambda>j. [PinMode (dpins ! j),
                                           DigitalWrite (dpins ! j) (\<not> digiton cfg)])
                                  [0..<numdigits cfg])\<rparr>)"
    using assms(1) ls by (subst digitpins_loop_eq) simp_all
  have sg: "segmentpins_loop cfg spins 0 s' =
     Inr (s'\<lparr>segmentpins := spins,
            io := io s' @ concat (map (\<lambda>j. [PinMode (spins ! j),
                                           DigitalWrite (spins ! j) (\<not> segmenton cfg)])
                                  [0..<numsegments cfg])\<rparr>)"
    if "length (segmentpins s') = numsegments cfg" for s'
    using assms(2) that by (subst segmentpins_loop_eq) simp_all
  show ?thesis
    unfolding begin_display_def d by (simp add: sg ls)
qed

lemma begin_events_quiet:
  assumes "set spins \<inter> set dpins = {}" and "length spins = numsegments cfg"
  shows "\<forall>e \<in> set (concat (map (\<lambda>j. [PinMode (dpins ! j),
                                               DigitalWrite (dpins ! j) (\<not> digiton cfg)])
                                    [0..<numdigits cfg])
                        @ concat (map (\<lambda>j. [PinMode (spins ! j),
                                               DigitalWrite (spins ! j) (\<not> segmenton cfg)])
                                    [0..<numsegments cfg])). quiet cfg dpins e"
proof -
  have "spins ! j \<notin> set dpins" if "j < numsegments cfg" for j
  proof -
    from that assms(2) have "spins ! j \<in> set spins" by simp
    with assms(1) show ?thesis by blast
  qed
  then show ?thesis by auto
qed

lemma never_two_active_Nil: "never_two_active cfg dpins []"
  by (simp add: never_two_active_def active_digit_lines_def levels_def)

lemma begin_line_inv:
  assumes dist: "distinct (dpins @ spins)"
    and ld: "length dpins = numdigits cfg" and len: "length spins = numsegments cfg"
    and ws: "well_sized cfg s0" and fresh: "io s0 = []"
  shows "\<exists>s1. begin_display cfg dpins spins blank s0 = Inr s1 \<and> line_inv cfg dpins spins s1"
proof -
  let ?es = "concat (map (\<lambda>j. [PinMode (dpins ! j),
                                               DigitalWrite (dpins ! j) (\<not> digiton cfg)])
                                    [0..<numdigits cfg])
                        @ concat (map (\<lambda>j. [PinMode (spins ! j),
                                               DigitalWrite (spins ! j) (\<not> segmenton cfg)])
                                    [0..<numsegments cfg])"
  let ?s2 = "s0\<lparr>digitpins := dpins, segmentpins := spins, io := io s0 @ ?es\<rparr>"
  from dist have d: "distinct dpins" and disj: "set spins \<inter> set dpins = {}" by auto
  have "length (dpins @ spins) \<le> 256" by (rule distinct_byte_length [OF dist])
  with ld len have small: "numdigits cfg < 256" by (simp add: numsegments_def split: if_splits)
  have none: "set (active_digit_lines cfg dpins (levels [])) \<subseteq> {undefined}"
    by (simp add: active_digit_lines_def levels_def)
  from trace_quiet [OF d never_two_active_Nil none begin_events_quiet [OF disj len]]
  have "never_two_active cfg dpins ?es"
    and "set (active_digit_lines cfg dpins (levels ?es)) \<subseteq> {}"
    by (simp_all add: active_digit_lines_def levels_def)
  then have "line_inv cfg dpins spins ?s2"
    by (simp add: line_inv_def fresh)
  from showDigit_line_inv [OF dist len small this]
  have "line_inv cfg dpins spins (setBlank cfg blank ?s2)"
    by (simp add: setBlank_def)
  then show ?thesis
    using begin_display_eq [OF ld len ws, of blank] by simp
qed

lemma timer_run:
  "(case begin_display timer_config [5, 4, 3, 2] [13, 12, 11, 10, 9, 8, 7, 6] False
            (static_storage timer_config) of
      Inl e \<Rightarrow> False
    | Inr s1 \<Rightarrow>
        (case run timer_config
                [SetValue 10 12 False 2, Show, Show, SetSegments 0 0x80 True, Show,
                 SetBlank True, Show, SetBlank False, Show, Show, Show, Show] s1 of
           Inl e \<Rightarrow> False
         | Inr s \<Rightarrow> True))"
  by code_simp

text \<open>
  C2. Whenever \<^verbatim>\<open>showDigit\<close> is called while a digit is shown and for
  another target, its pin writes are, in this order: the line of the current
  digit to its inactive level; every segment line, from segment a on, to the
  level that the pattern of the target gives it (all inactive for a target
  out of range); and then only, for a target in range, the line of the target
  digit to its active level. And for a display whose digit and segment
  lines are on pins distinct from one another, not yet written:
  \<^verbatim>\<open>begin\<close> returns, and after it and any sequence of calls of the other
  public operations that returns, at no point of the whole sequence of pin
  writes, from the first write of \<^verbatim>\<open>begin\<close> on, were two digit-select
  lines at their active level.
\<close>

theorem one_digit_at_a_time:
  assumes "distinct (dpins @ spins)"
    and "length dpins = numdigits cfg" and "length spins = numsegments cfg"
    and "well_sized cfg s0" and "io s0 = []"
  shows "(\<forall>t m. unat (curdigit t) < numdigits cfg \<longrightarrow> m \<noteq> unat (curdigit t) \<longrightarrow>
            io (showDigit cfg m t) =
              io t
              @ [DigitalWrite (digitpins t ! unat (curdigit t)) (\<not> digiton cfg)]
              @ segment_writes cfg (segmentpins t)
                  (if m < numdigits cfg then display t ! m else 0)
              @ (if m < numdigits cfg
                 then [DigitalWrite (digitpins t ! m) (digiton cfg)] else [])) \<and>
         (\<exists>s1. begin_display cfg dpins spins blank s0 = Inr s1 \<and>
            (\<forall>cs s. (\<forall>c \<in> set cs. \<not> is_begin c) \<longrightarrow> run cfg cs s1 = Inr s \<longrightarrow>
               never_two_active cfg dpins (io s)))"
proof -
  have "length (dpins @ spins) \<le> 256" by (rule distinct_byte_length [OF assms(1)])
  with assms(2,3) have small: "numdigits cfg < 256"
    by (simp add: numsegments_def split: if_splits)
  from begin_line_inv [OF assms, of blank]
  obtain s1 where b: "begin_display cfg dpins spins blank s0 = Inr s1"
    and inv: "line_inv cfg dpins spins s1"
    by blast
  have "never_two_active cfg dpins (io s)"
    if "\<forall>c \<in> set cs. \<not> is_begin c" and "run cfg cs s1 = Inr s" for cs s
    using run_line_inv [OF assms(1,3) small that inv] by (simp add: line_inv_def)
  with b show ?thesis by (simp add: showDigit_io)
qed

theorem one_digit_at_a_time_witness:
  "distinct ([5, 4, 3, 2] @ [13, 12, 11, 10, 9, 8, 7, 6 :: byte]) \<and>
   length [5, 4, 3, 2 :: byte] = numdigits timer_config \<and>
   length [13, 12, 11, 10, 9, 8, 7, 6 :: byte] = numsegments timer_config \<and>
   well_sized timer_config timer_display \<and> io timer_display = [] \<and>
   (\<exists>s1 s.
      begin_display timer_config [5, 4, 3, 2] [13, 12, 11, 10, 9, 8, 7, 6] False timer_display
        = Inr s1 \<and>
      unat (curdigit s1) < numdigits timer_config \<and> 1 \<noteq> unat (curdigit s1) \<and>
      io (showDigit timer_config 1 s1) =
        io s1
        @ [DigitalWrite (digitpins s1 ! unat (curdigit s1)) (\<not> digiton timer_config)]
        @ segment_writes timer_config (segmentpins s1) (display s1 ! 1)
        @ [DigitalWrite (digitpins s1 ! 1) (digiton timer_config)] \<and>
      (\<forall>c \<in> set [SetValue 10 12 False 2, Show, Show, SetSegments 0 0x80 True, Show,
                   SetBlank True, Show, SetBlank False, Show, Show, Show, Show].
         \<not> is_begin c) \<and>
      run timer_config
        [SetValue 10 12 False 2, Show, Show, SetSegments 0 0x80 True, Show,
         SetBlank True, Show, SetBlank False, Show, Show, Show, Show] s1 = Inr s \<and>
      never_two_active timer_config [5, 4, 3, 2] (io s))"
proof -
  let ?cs = "[SetValue 10 12 False 2, Show, Show, SetSegments 0 0x80 True, Show,
              SetBlank True, Show, SetBlank False, Show, Show, Show, Show]"
  have a: "distinct ([5, 4, 3, 2] @ [13, 12, 11, 10, 9, 8, 7, 6 :: byte])" by simp
  have b: "length [5, 4, 3, 2 :: byte] = numdigits timer_config"
    by (simp add: timer_config_def)
  have c: "length [13, 12, 11, 10, 9, 8, 7, 6 :: byte] = numsegments timer_config"
    by (simp add: timer_config_def numsegments_def)
  have d: "well_sized timer_config timer_display"
    by (simp add: well_sized_def timer_display_eq static_storage_def)
  have e: "io timer_display = []"
    by (simp add: timer_display_eq static_storage_def)
  from one_digit_at_a_time [OF a b c d e, of False]
  obtain s1 where
    order: "\<And>t m. unat (curdigit t) < numdigits timer_config \<Longrightarrow> m \<noteq> unat (curdigit t) \<Longrightarrow>
            io (showDigit timer_config m t) =
              io t
              @ [DigitalWrite (digitpins t ! unat (curdigit t)) (\<not> digiton timer_config)]
              @ segment_writes timer_config (segmentpins t)
                  (if m < numdigits timer_config then display t ! m else 0)
              @ (if m < numdigits timer_config
                 then [DigitalWrite (digitpins t ! m) (digiton timer_config)] else [])"
    and s1: "begin_display timer_config [5, 4, 3, 2] [13, 12, 11, 10, 9, 8, 7, 6] False
               timer_display = Inr s1"
    and safe: "\<And>cs s. \<forall>c \<in> set cs. \<not> is_begin c \<Longrightarrow> run timer_config cs s1 = Inr s \<Longrightarrow>
                 never_two_active timer_config [5, 4, 3, 2] (io s)"
    by blast
  from timer_run s1 obtain s where r: "run timer_config ?cs s1 = Inr s"
    by (auto simp: timer_display_eq split: sum.splits)
  have nb: "\<forall>c \<in> set ?cs. \<not> is_begin c" by simp
  from begin_display_curdigit [OF s1] have cur: "unat (curdigit s1) = 0" by simp
  then have lt: "unat (curdigit s1) < numdigits timer_config" and ne: "1 \<noteq> unat (curdigit s1)"
    by (simp_all add: timer_config_def)
  from order [OF lt ne]
  have "io (showDigit timer_config 1 s1) =
        io s1
        @ [DigitalWrite (digitpins s1 ! unat (curdigit s1)) (\<not> digiton timer_config)]
        @ segment_writes timer_config (segmentpins s1) (display s1 ! 1)
        @ [DigitalWrite (digitpins s1 ! 1) (digiton timer_config)]"
    by (simp add: timer_config_def)
  with a b c d e s1 lt ne nb r safe [OF nb r] show ?thesis by blast
qed

end
